theory Spec2Isabelle
  imports Complex_Main
begin

section \<open>Tiling and reconstruction pipeline of \<^verbatim>\<open>inference.py\<close>\<close>

text \<open>
  Python integers are modelled as \<open>int\<close>. The overlap fraction is a Python float; it is
  modelled as a rational number with exact arithmetic (every finite float is a rational).
  The only place where it is used is the computation of the stride,
  \<^verbatim>\<open>int(split_size * (1-overlap))\<close>; all lemmas about the loop are stated for an
  arbitrary stride, so they do not depend on how the product is rounded.
\<close>

subsection \<open>\<^verbatim>\<open>start_points\<close> (nested in \<^verbatim>\<open>patchify\<close>)\<close>

text \<open>Python's \<^verbatim>\<open>int(x)\<close> on a float truncates towards zero.\<close>

definition py_int :: "rat \<Rightarrow> int" where
  "py_int x = (if 0 \<le> x then \<lfloor>x\<rfloor> else \<lceil>x\<rceil>)"

text \<open>
  The \<^verbatim>\<open>while True\<close> loop. Its state is \<open>counter\<close> and \<open>points\<close>; the loop has no
  bound, so not returning is the value \<open>None\<close>.
\<close>

partial_function (option) start_points_loop ::
  "int \<Rightarrow> int \<Rightarrow> int \<Rightarrow> int \<Rightarrow> int list \<Rightarrow> int list option" where
  "start_points_loop sz split_size stride counter points =
     (if stride * counter + split_size \<ge> sz
      then Some (points @ [sz - split_size])
      else start_points_loop sz split_size stride (counter + 1) (points @ [stride * counter]))"

declare start_points_loop.simps [code]

definition start_points :: "int \<Rightarrow> int \<Rightarrow> rat \<Rightarrow> int list option" where
  "start_points sz split_size overlap =
     start_points_loop sz split_size (py_int (of_int split_size * (1 - overlap))) 1 [0]"

subsection \<open>Arrays\<close>

text \<open>
  A three-dimensional array (numpy \<^verbatim>\<open>ndarray\<close>, torch \<^verbatim>\<open>Tensor\<close>) is a list of rows, each a
  list of pixels, each a list of channel values; a batch is a list of such arrays. Element
  values are rationals: an 8-bit pixel is an integer between 0 and 255, and the float
  arithmetic of the division by 255 is taken to be exact. Where the source tells a numpy
  array from a torch tensor (the patches given to \<^verbatim>\<open>reconstruct\<close>) the model carries the
  kind with the patches, and where it converts values (the float canvas of
  \<^verbatim>\<open>reconstruct\<close>) the model converts them. A nested list cannot record the other axes of
  an array one of whose axes has length 0; such arrays are outside this model.
\<close>

type_synonym 'a array3 = "'a list list list"
type_synonym 'a array4 = "'a list list list list"
type_synonym shape = "nat \<times> nat \<times> nat"

definition shape3 :: "'a array3 \<Rightarrow> shape" where
  "shape3 a =
     (length a,
      (case a of [] \<Rightarrow> 0 | row # _ \<Rightarrow> length row),
      (case a of [] \<Rightarrow> 0 | row # _ \<Rightarrow> (case row of [] \<Rightarrow> 0 | px # _ \<Rightarrow> length px)))"

definition is_array3 :: "shape \<Rightarrow> 'a array3 \<Rightarrow> bool" where
  "is_array3 sh a =
     (case sh of (h, w, c) \<Rightarrow>
        length a = h \<and> (\<forall>row \<in> set a. length row = w \<and> (\<forall>px \<in> set row. length px = c)))"

definition zeros :: "shape \<Rightarrow> ('a::zero) array3" where
  "zeros sh = (case sh of (h, w, c) \<Rightarrow> replicate h (replicate w (replicate c 0)))"

text \<open>
  A value written into a float tensor is converted to float32: rounded to the nearest
  number with a significand of 24 bits (a multiple of \<open>2 ^ -149\<close> below \<open>2 ^ -126\<close>), a tie going
  to the even significand. \<open>bit_length\<close> is Python's \<^verbatim>\<open>int.bit_length\<close> on a positive integer, and \<open>float32_exponent\<close>
  the exponent \<open>e\<close> with \<open>2 ^ e \<le> |x| < 2 ^ (e + 1)\<close>. A value that rounds beyond the largest
  finite float32 is infinite in torch; \<open>float32\<close> has no such value, so the model covers
  finite values only.
\<close>

function bit_length :: "int \<Rightarrow> nat" where
  "bit_length n = (if n \<le> 0 then 0 else Suc (bit_length (n div 2)))"
  by pat_completeness auto
termination
  by (relation "measure nat") auto

declare bit_length.simps [simp del]

definition pow2 :: "int \<Rightarrow> rat" where
  "pow2 e = (if 0 \<le> e then 2 ^ nat e else 1 / 2 ^ nat (- e))"

definition round_half_even :: "rat \<Rightarrow> int" where
  "round_half_even y =
     (if y - of_int \<lfloor>y\<rfloor> < 1 / 2 then \<lfloor>y\<rfloor>
      else if 1 / 2 < y - of_int \<lfloor>y\<rfloor> then \<lfloor>y\<rfloor> + 1
      else if even \<lfloor>y\<rfloor> then \<lfloor>y\<rfloor> else \<lfloor>y\<rfloor> + 1)"

definition float32_exponent :: "rat \<Rightarrow> int" where
  "float32_exponent x =
     (case quotient_of \<bar>x\<bar> of (a, b) \<Rightarrow>
        if pow2 (int (bit_length a) - int (bit_length b)) \<le> \<bar>x\<bar>
        then int (bit_length a) - int (bit_length b)
        else int (bit_length a) - int (bit_length b) - 1)"

definition float32 :: "rat \<Rightarrow> rat" where
  "float32 x =
     (if x = 0 then 0
      else of_int (round_half_even (x / pow2 (max (float32_exponent x) (- 126) - 23)))
             * pow2 (max (float32_exponent x) (- 126) - 23))"

text \<open>
  A slice \<^verbatim>\<open>[a:b]\<close> of an axis of length \<open>n\<close>: a negative bound counts from the end, and
  both bounds are clamped to the axis. \<open>view_range\<close> gives the first index of the slice and
  the index after its last one.
\<close>

definition slice_index :: "int \<Rightarrow> nat \<Rightarrow> nat" where
  "slice_index a n = (if a < 0 then nat (max 0 (a + int n)) else min (nat a) n)"

definition view_range :: "int \<Rightarrow> int \<Rightarrow> nat \<Rightarrow> nat \<times> nat" where
  "view_range a b n = (slice_index a n, max (slice_index a n) (slice_index b n))"

definition py_slice :: "int \<Rightarrow> int \<Rightarrow> 'a list \<Rightarrow> 'a list" where
  "py_slice a b xs =
     (case view_range a b (length xs) of (lo, hi) \<Rightarrow> take (hi - lo) (drop lo xs))"

text \<open>\<^verbatim>\<open>permute(0, 3, 1, 2)\<close> on each item of a batch, and \<^verbatim>\<open>permute(2, 0, 1)\<close> on an array:
  (row, column, channel) becomes (channel, row, column).\<close>

definition hwc_to_chw :: "'a array3 \<Rightarrow> 'a array3" where
  "hwc_to_chw a =
     (case shape3 a of (h, w, c) \<Rightarrow>
        map (\<lambda>k. map (\<lambda>row. map (\<lambda>px. px ! k) row) a) [0..<c])"

text \<open>\<^verbatim>\<open>permute(0, 2, 3, 1)\<close> on each item of a batch: (channel, row, column) becomes
  (row, column, channel).\<close>

definition chw_to_hwc :: "'a array3 \<Rightarrow> 'a array3" where
  "chw_to_hwc a =
     (case shape3 a of (c, h, w) \<Rightarrow>
        map (\<lambda>y. map (\<lambda>x. map (\<lambda>plane. plane ! y ! x) a) [0..<w]) [0..<h])"

subsection \<open>Exceptions\<close>

datatype py_exn =
    ValueError string
  | IOError
  | IndexError
  | RuntimeError
  | TypeError
  | UnboundLocalError
  | OtherError

subsection \<open>\<^verbatim>\<open>patchify\<close>\<close>

text \<open>The patch \<^verbatim>\<open>image[i:i+split_size, j:j+split_size]\<close>; the source's \<open>image\<close> is
  written \<open>img\<close>, and its \<open>size\<close> is written \<open>sz\<close>.\<close>

definition window :: "'a array3 \<Rightarrow> int \<Rightarrow> int \<Rightarrow> int \<Rightarrow> 'a array3" where
  "window img split_size i j =
     map (py_slice j (j + split_size)) (py_slice i (i + split_size) img)"

text \<open>
  The two nested \<^verbatim>\<open>for\<close> loops run through the rows of the grid in order and, in each
  row, through the columns in order. \<^verbatim>\<open>np.asarray\<close> is the identity on a list of patches of
  one shape; what it does with patches of different shapes depends on the numpy version,
  and the model leaves the list as it is (\<open>from_numpy\<close> below rejects it).
\<close>

definition patchify ::
  "'a array3 \<Rightarrow> int \<Rightarrow> rat \<Rightarrow> ('a array3 list \<times> int list \<times> int list) option" where
  "patchify img split_size overlap =
     (case start_points (int (fst (shape3 img))) split_size overlap of
        None \<Rightarrow> None
      | Some Y_points \<Rightarrow>
          (case start_points (int (fst (snd (shape3 img)))) split_size overlap of
             None \<Rightarrow> None
           | Some X_points \<Rightarrow>
               Some (concat (map (\<lambda>i. map (\<lambda>j. window img split_size i j) X_points) Y_points),
                     X_points, Y_points)))"

subsection \<open>\<^verbatim>\<open>reconstruct\<close>\<close>

text \<open>
  The assignment \<^verbatim>\<open>result[i:i+split_size, j:j+split_size] = patch\<close> copies the patch into
  a view of the canvas. torch broadcasts the patch to the shape of the view: an axis of
  the patch must have the length of the view's axis, or length 1 (then its one entry is
  repeated); otherwise the assignment raises.
\<close>

definition broadcastable :: "shape \<Rightarrow> 'a array3 \<Rightarrow> bool" where
  "broadcastable sh patch =
     (case sh of (a, b, c) \<Rightarrow>
        (length patch = a \<or> length patch = 1) \<and>
        (\<forall>row \<in> set patch. (length row = b \<or> length row = 1) \<and>
           (\<forall>px \<in> set row. length px = c \<or> length px = 1)))"

definition stretch :: "nat \<Rightarrow> 'a list \<Rightarrow> 'a list" where
  "stretch n xs = (if length xs = n then xs else replicate n (hd xs))"

definition broadcast_to :: "shape \<Rightarrow> 'a array3 \<Rightarrow> 'a array3 option" where
  "broadcast_to sh patch =
     (case sh of (a, b, c) \<Rightarrow>
        if broadcastable sh patch
        then Some (map (\<lambda>row. map (stretch c) (stretch b row)) (stretch a patch))
        else None)"

definition assign_window ::
  "shape \<Rightarrow> 'a array3 \<Rightarrow> int \<Rightarrow> int \<Rightarrow> int \<Rightarrow> 'a array3 \<Rightarrow> py_exn + 'a array3" where
  "assign_window sh result split_size i j patch =
     (case sh of (h, w, c) \<Rightarrow>
      (case view_range i (i + split_size) h of (r0, r1) \<Rightarrow>
      (case view_range j (j + split_size) w of (c0, c1) \<Rightarrow>
      (case broadcast_to (r1 - r0, c1 - c0, c) patch of
         None \<Rightarrow> Inl RuntimeError
       | Some p \<Rightarrow>
           Inr (map (\<lambda>y. if r0 \<le> y \<and> y < r1
                         then map (\<lambda>x. if c0 \<le> x \<and> x < c1
                                       then p ! (y - r0) ! (x - c0)
                                       else result ! y ! x) [0..<w]
                         else result ! y) [0..<h])))))"

text \<open>
  The argument \<open>splits\<close> is a numpy array (what \<^verbatim>\<open>patchify\<close> returns, line 48) or a torch
  tensor (what \<^verbatim>\<open>_inference\<close> passes, line 124).
\<close>

datatype 'a patches = Numpy "'a array3 list" | Torch "'a array3 list"

fun patches_list :: "'a patches \<Rightarrow> 'a array3 list" where
  "patches_list (Numpy ps) = ps"
| "patches_list (Torch ps) = ps"

text \<open>
  The loop body, once for every pair of the grid in the order of the two nested
  \<^verbatim>\<open>for\<close> loops (\<open>List.product Y_points X_points\<close>); the state is the canvas and
  \<open>count\<close>. \<^verbatim>\<open>splits[count]\<close> raises when \<open>count\<close> is out of range. The assignment into
  the torch canvas raises \<^verbatim>\<open>TypeError\<close> for a numpy patch; a torch patch is copied, every
  value converted to the float32 of the canvas.
\<close>

fun reconstruct_loop ::
  "shape \<Rightarrow> rat patches \<Rightarrow> int \<Rightarrow> (int \<times> int) list \<Rightarrow> nat \<Rightarrow> rat array3
     \<Rightarrow> py_exn + rat array3" where
  "reconstruct_loop sh splits split_size [] count result = Inr result"
| "reconstruct_loop sh splits split_size ((i, j) # rest) count result =
     (if count < length (patches_list splits)
      then (case splits of
              Numpy ps \<Rightarrow> Inl TypeError
            | Torch ps \<Rightarrow>
                (case assign_window sh result split_size i j (map (map (map float32)) (ps ! count)) of
                   Inl e \<Rightarrow> Inl e
                 | Inr result' \<Rightarrow>
                     reconstruct_loop sh splits split_size rest (count + 1) result'))
      else Inl IndexError)"

text \<open>
  \<^verbatim>\<open>reconstruct\<close>. The canvas is \<^verbatim>\<open>torch.zeros(image_size, dtype=torch.float)\<close>, a float32
  tensor of zeros; \<open>overlap\<close> is a parameter that the body does not read.
\<close>

definition reconstruct ::
  "rat patches \<Rightarrow> int \<Rightarrow> rat \<Rightarrow> shape \<Rightarrow> int list \<Rightarrow> int list \<Rightarrow> py_exn + rat array3" where
  "reconstruct splits split_size overlap image_size X_points Y_points =
     reconstruct_loop image_size splits split_size (List.product Y_points X_points) 0
       (zeros image_size)"

subsection \<open>\<^verbatim>\<open>_inference\<close>\<close>

text \<open>
  The outside world of \<^verbatim>\<open>_inference\<close>: what \<^verbatim>\<open>np.load\<close> and
  \<^verbatim>\<open>np.asarray(Image.open(...))\<close> do on a path (return an array or raise), and the string
  that \<^verbatim>\<open>generateRandomString(10)\<close> returns. The input is a path, an array, or a value of
  another type. Arrays are three-dimensional by their type here.
\<close>

datatype 'a attempt = Returned 'a | Raised py_exn

record files =
  np_load :: "string \<Rightarrow> rat array3 attempt"
  image_open :: "string \<Rightarrow> rat array3 attempt"
  random_string :: string

datatype inp = PathInput string | ArrayInput "rat array3" | OtherInput

text \<open>\<^verbatim>\<open>except (ValueError, IOError)\<close>: the exceptions that the two \<^verbatim>\<open>try\<close> blocks catch.\<close>

fun caught :: "py_exn \<Rightarrow> bool" where
  "caught (ValueError m) = True"
| "caught IOError = True"
| "caught e = False"

text \<open>One \<^verbatim>\<open>try\<close> block: the value bound to \<open>image\<close> after it (\<open>None\<close> when the exception
  was caught), or the exception that propagates.\<close>

definition try_load :: "rat array3 attempt \<Rightarrow> py_exn + rat array3 option" where
  "try_load a =
     (case a of
        Returned arr \<Rightarrow> Inr (Some arr)
      | Raised e \<Rightarrow> if caught e then Inr None else Inl e)"

text \<open>
  Lines 66 to 94. The second \<^verbatim>\<open>try\<close> block runs whatever the first one did and binds
  \<open>image\<close> again in both of its branches, so the value of the first block is not read.
\<close>

definition load_input :: "files \<Rightarrow> inp \<Rightarrow> py_exn + (rat array3 \<times> string)" where
  "load_input fs input =
     (case input of
        PathInput image_path \<Rightarrow>
          (case try_load (np_load fs image_path) of
             Inl e \<Rightarrow> Inl e
           | Inr image_1 \<Rightarrow>
               (case try_load (image_open fs image_path) of
                  Inl e \<Rightarrow> Inl e
                | Inr image_2 \<Rightarrow>
                    (case image_2 of
                       None \<Rightarrow> Inl (ValueError ''Invalid path.'')
                     | Some img \<Rightarrow> Inr (img, image_path))))
      | ArrayInput arr \<Rightarrow> Inr (arr, random_string fs @ ''.jpg'')
      | OtherInput \<Rightarrow> Inl (ValueError ''Invalid input.''))"

text \<open>
  Lines 96 to 105: the batch, and the variables \<open>original_shape\<close>, \<open>X_points\<close>, \<open>Y_points\<close>,
  which are bound only when the image was split. \<open>None\<close> is \<^verbatim>\<open>patchify\<close> not returning.
\<close>

definition split_or_wrap ::
  "rat array3 \<Rightarrow> int \<Rightarrow> (rat array4 \<times> (shape \<times> int list \<times> int list) option) option" where
  "split_or_wrap img image_size =
     (if int (fst (shape3 img)) > image_size * 2 \<or> int (fst (snd (shape3 img))) > image_size * 2
      then (case patchify img image_size (1 / 8) of
              None \<Rightarrow> None
            | Some (splits, X_points, Y_points) \<Rightarrow>
                Some (splits, Some (shape3 img, X_points, Y_points)))
      else Some ([img], None))"

text \<open>
  Lines 107 to 111. \<^verbatim>\<open>torch.from_numpy\<close> takes a numeric array only: a batch whose patches
  differ in shape is not one. Then the axes are permuted and every value is divided by 255.
\<close>

definition from_numpy :: "rat array4 \<Rightarrow> py_exn + rat array4" where
  "from_numpy batch =
     (if \<forall>patch \<in> set batch. shape3 patch = shape3 (hd batch) then Inr batch else Inl TypeError)"

definition normalize :: "rat array4 \<Rightarrow> rat array4" where
  "normalize batch = map (map (map (map (\<lambda>v. v / 255)))) batch"

definition model_input :: "rat array4 \<Rightarrow> py_exn + rat array4" where
  "model_input batch =
     (case from_numpy batch of
        Inl e \<Rightarrow> Inl e
      | Inr t \<Rightarrow> Inr (normalize (map hwc_to_chw t)))"

text \<open>
  Lines 121 to 126, on the second output \<open>ei\<close> of the network. \<^verbatim>\<open>squeeze(0)\<close> drops the
  first axis when its length is 1 and does nothing otherwise; after it has dropped the
  row axis of the canvas, \<^verbatim>\<open>permute(2, 0, 1)\<close> raises.
\<close>

definition assemble ::
  "rat array4 \<Rightarrow> int \<Rightarrow> (shape \<times> int list \<times> int list) option \<Rightarrow> py_exn + rat array3" where
  "assemble ei image_size grids =
     (if length ei = 1 then Inr (hd ei)
      else (case grids of
              None \<Rightarrow> Inl UnboundLocalError
            | Some (original_shape, X_points, Y_points) \<Rightarrow>
                (case reconstruct (Torch (map chw_to_hwc ei)) image_size (1 / 8)
                        original_shape X_points Y_points of
                   Inl e \<Rightarrow> Inl e
                 | Inr result \<Rightarrow>
                     if fst original_shape = 1 then Inl RuntimeError
                     else Inr (hwc_to_chw result))))"

text \<open>
  \<^verbatim>\<open>_inference\<close> (an Isabelle name cannot start with an underscore). The network is a
  function from a batch to its three outputs. \<open>None\<close> is not returning.
\<close>

definition private_inference ::
  "files \<Rightarrow> (rat array4 \<Rightarrow> rat array4 \<times> rat array4 \<times> rat array4) \<Rightarrow> inp \<Rightarrow> int
     \<Rightarrow> (py_exn + (rat array3 \<times> string)) option" where
  "private_inference fs net input image_size =
     (case load_input fs input of
        Inl e \<Rightarrow> Some (Inl e)
      | Inr (img, image_path) \<Rightarrow>
          (case split_or_wrap img image_size of
             None \<Rightarrow> None
           | Some (batch, grids) \<Rightarrow>
               (case model_input batch of
                  Inl e \<Rightarrow> Some (Inl e)
                | Inr t \<Rightarrow>
                    (case net t of (ei_1, ei, A) \<Rightarrow>
                       (case assemble ei image_size grids of
                          Inl e \<Rightarrow> Some (Inl e)
                        | Inr result \<Rightarrow> Some (Inr (result, image_path)))))))"

subsection \<open>Auxiliary notions for the proofs\<close>

text \<open>The pixel in row \<open>y\<close> and column \<open>x\<close> lies in the window of side \<open>s\<close> at the offsets
  \<open>ij\<close>, for offsets that are not negative.\<close>

definition in_window :: "int \<Rightarrow> int \<times> int \<Rightarrow> nat \<Rightarrow> nat \<Rightarrow> bool" where
  "in_window s ij y x =
     (nat (fst ij) \<le> y \<and> y < nat (fst ij) + nat s \<and> nat (snd ij) \<le> x \<and> x < nat (snd ij) + nat s)"

text \<open>The element values of an array and of a batch.\<close>

definition values3 :: "'a array3 \<Rightarrow> 'a set" where
  "values3 a = (\<Union>row\<in>set a. \<Union>px\<in>set row. set px)"

definition values4 :: "'a array4 \<Rightarrow> 'a set" where
  "values4 b = (\<Union>a\<in>set b. values3 a)"

text \<open>The length of the slice \<^verbatim>\<open>xs[a:b]\<close> of a list of \<open>n\<close> entries.\<close>

definition view_len :: "int \<Rightarrow> int \<Rightarrow> nat \<Rightarrow> nat" where
  "view_len a b n = snd (view_range a b n) - fst (view_range a b n)"

subsection \<open>Example inputs\<close>

text \<open>
  A stand-in for the network, which returns its input batch as each of its three outputs,
  and an outside world in which every path holds a numeric-array file that is not an
  encoded image: \<^verbatim>\<open>np.load\<close> returns an array and \<^verbatim>\<open>Image.open\<close> raises.
\<close>

definition passthrough_net :: "rat array4 \<Rightarrow> rat array4 \<times> rat array4 \<times> rat array4" where
  "passthrough_net b = (b, b, b)"

definition npy_only :: files where
  "npy_only = \<lparr>np_load = (\<lambda>p. Returned [[[1, 2, 3]]]), image_open = (\<lambda>p. Raised IOError),
               random_string = ''abcdefghij''\<rparr>"

section \<open>The coverage grid\<close>

subsection \<open>The loop of \<^verbatim>\<open>start_points\<close>\<close>

text \<open>
  What the loop returns when it returns: the points it was given, then the accepted
  candidates \<open>stride * counter\<close>, \<open>stride * (counter + 1)\<close>, ... and the clamped last point.
  Every accepted candidate failed the exit test, and the first candidate that was not
  accepted passed it.
\<close>

lemma start_points_loop_result:
  assumes "start_points_loop sz ws st c ps = Some r"
  shows "\<exists>n. r = ps @ map (\<lambda>k. st * (c + int k)) [0..<n] @ [sz - ws]
           \<and> (\<forall>k<n. st * (c + int k) + ws < sz)
           \<and> sz \<le> st * (c + int n) + ws"
proof (rule start_points_loop.raw_induct[where P = "\<lambda>sz ws st c ps r.
         \<exists>n. r = ps @ map (\<lambda>k. st * (c + int k)) [0..<n] @ [sz - ws]
           \<and> (\<forall>k<n. st * (c + int k) + ws < sz)
           \<and> sz \<le> st * (c + int n) + ws", OF _ assms])
  fix loop :: "int \<Rightarrow> int \<Rightarrow> int \<Rightarrow> int \<Rightarrow> int list \<Rightarrow> int list option"
  fix sz ws st c :: int and ps r :: "int list"
  assume IH: "\<And>sz ws st c ps r. loop sz ws st c ps = Some r \<Longrightarrow>
         \<exists>n. r = ps @ map (\<lambda>k. st * (c + int k)) [0..<n] @ [sz - ws]
           \<and> (\<forall>k<n. st * (c + int k) + ws < sz)
           \<and> sz \<le> st * (c + int n) + ws"
  assume body: "(if sz \<le> st * c + ws then Some (ps @ [sz - ws])
                 else loop sz ws st (c + 1) (ps @ [st * c])) = Some r"
  show "\<exists>n. r = ps @ map (\<lambda>k. st * (c + int k)) [0..<n] @ [sz - ws]
           \<and> (\<forall>k<n. st * (c + int k) + ws < sz)
           \<and> sz \<le> st * (c + int n) + ws"
  proof (cases "sz \<le> st * c + ws")
    case True
    with body have "r = ps @ [sz - ws]" by simp
    with True show ?thesis by (intro exI[of _ 0]) simp
  next
    case False
    with body have "loop sz ws st (c + 1) (ps @ [st * c]) = Some r" by simp
    from IH[OF this] obtain n where
      r: "r = (ps @ [st * c]) @ map (\<lambda>k. st * (c + 1 + int k)) [0..<n] @ [sz - ws]"
      and acc: "\<forall>k<n. st * (c + 1 + int k) + ws < sz"
      and fin: "sz \<le> st * (c + 1 + int n) + ws" by blast
    have m: "map (\<lambda>k. st * (c + int k)) [0..<Suc n]
               = st * c # map (\<lambda>k. st * (c + 1 + int k)) [0..<n]"
      by (simp add: upt_conv_Cons map_Suc_upt[symmetric] ac_simps del: upt_Suc)
    have "r = ps @ map (\<lambda>k. st * (c + int k)) [0..<Suc n] @ [sz - ws]"
      unfolding m using r by simp
    moreover have "\<forall>k<Suc n. st * (c + int k) + ws < sz"
    proof (intro allI impI)
      fix k assume "k < Suc n"
      show "st * (c + int k) + ws < sz"
      proof (cases k)
        case 0 with False show ?thesis by simp
      next
        case (Suc j)
        with \<open>k < Suc n\<close> acc have "st * (c + 1 + int j) + ws < sz" by simp
        with Suc show ?thesis by (simp add: ac_simps)
      qed
    qed
    moreover have "sz \<le> st * (c + int (Suc n)) + ws"
      using fin by (simp add: ac_simps)
    ultimately show ?thesis by blast
  qed
qed

text \<open>With a stride of at least 1 the loop returns, from any counter.\<close>

lemma start_points_loop_terminates:
  assumes "1 \<le> st"
  shows "\<exists>r. start_points_loop sz ws st c ps = Some r"
proof (induction "nat (sz - ws - st * c)" arbitrary: c ps rule: less_induct)
  case less
  show ?case
  proof (cases "sz \<le> st * c + ws")
    case True
    then show ?thesis by (subst start_points_loop.simps) simp
  next
    case False
    have "st * c < st * (c + 1)" using assms by (simp add: distrib_left)
    with False have "nat (sz - ws - st * (c + 1)) < nat (sz - ws - st * c)" by linarith
    from less[OF this] obtain r where
      "start_points_loop sz ws st (c + 1) (ps @ [st * c]) = Some r" by blast
    with False show ?thesis by (subst start_points_loop.simps) simp
  qed
qed

text \<open>With stride 0 and a window smaller than the extent the exit test never holds.\<close>

lemma start_points_loop_diverges:
  assumes "ws < sz"
  shows "start_points_loop sz ws 0 c ps = None"
proof (cases "start_points_loop sz ws 0 c ps")
  case None then show ?thesis .
next
  case (Some r)
  from start_points_loop_result[OF this] assms show ?thesis by simp
qed

lemma start_points_loop_same:
  assumes "0 \<le> st"
  shows "start_points_loop ws ws st 1 [0] = Some [0, 0]"
  using assms by (subst start_points_loop.simps) simp

subsection \<open>The stride\<close>

lemma py_int_nonneg: "0 \<le> x \<Longrightarrow> 0 \<le> py_int x"
  by (simp add: py_int_def)

lemma py_int_mono: "0 \<le> x \<Longrightarrow> x \<le> y \<Longrightarrow> py_int x \<le> py_int y"
  by (simp add: py_int_def floor_mono)

lemma stride_nonneg:
  assumes "0 < ws" "ov < 1"
  shows "0 \<le> py_int (of_int ws * (1 - ov))"
  using assms by (intro py_int_nonneg) simp

lemma stride_le:
  assumes "0 < ws" "0 \<le> ov" "ov < 1"
  shows "py_int (of_int ws * (1 - ov)) \<le> ws"
proof -
  have "of_int ws * (1 - ov) \<le> (of_int ws :: rat)"
    using assms by (simp add: mult_le_cancel_left1)
  moreover have "0 \<le> of_int ws * (1 - ov)" using assms by simp
  ultimately have "py_int (of_int ws * (1 - ov)) \<le> py_int (of_int ws)"
    by (rule py_int_mono[rotated])
  then show ?thesis using assms by (simp add: py_int_def)
qed

lemma stride_antimono:
  assumes "0 < ws" "f1 \<le> f2" "f2 < 1"
  shows "py_int (of_int ws * (1 - f2)) \<le> py_int (of_int ws * (1 - f1))"
  using assms by (intro py_int_mono) (simp_all add: mult_le_cancel_left_pos)

lemma start_points_result:
  assumes "start_points sz ws ov = Some pts"
  obtains n where
    "pts = 0 # map (\<lambda>k. py_int (of_int ws * (1 - ov)) * (1 + int k)) [0..<n] @ [sz - ws]"
    "\<forall>k<n. py_int (of_int ws * (1 - ov)) * (1 + int k) + ws < sz"
    "sz \<le> py_int (of_int ws * (1 - ov)) * (1 + int n) + ws"
  using start_points_loop_result[OF assms[unfolded start_points_def]] by auto

lemma start_points_600: "start_points 600 256 (1 / 8) = Some [0, 224, 344]"
  by code_simp

subsection \<open>Coverage and boundary flush\<close>

text \<open>The grid in closed form gives its bounds and the cover of the extent.\<close>

lemma start_points_grid:
  assumes "0 < ws" "ws \<le> ext" "0 \<le> ov" "ov < 1"
    and "start_points ext ws ov = Some pts"
  shows "hd pts = 0 \<and> (\<forall>p\<in>set pts. 0 \<le> p \<and> p + ws \<le> ext) \<and> last pts = ext - ws
         \<and> (\<Union>p\<in>set pts. {p ..< p + ws}) = {0 ..< ext}"
proof -
  define st where "st = py_int (of_int ws * (1 - ov))"
  from start_points_result[OF assms(5)] obtain n where
    pts: "pts = 0 # map (\<lambda>k. st * (1 + int k)) [0..<n] @ [ext - ws]"
    and acc: "\<forall>k<n. st * (1 + int k) + ws < ext"
    and fin: "ext \<le> st * (1 + int n) + ws"
    unfolding st_def by blast
  have st0: "0 \<le> st" unfolding st_def using assms by (intro stride_nonneg)
  have stw: "st \<le> ws" unfolding st_def using assms by (intro stride_le)
  have set_pts: "set pts = {0, ext - ws} \<union> (\<lambda>k. st * (1 + int k)) ` {0..<n}"
    by (auto simp: pts)
  have bounds: "\<forall>p\<in>set pts. 0 \<le> p \<and> p + ws \<le> ext"
  proof
    fix p assume "p \<in> set pts"
    then consider "p = 0" | "p = ext - ws" | k where "k < n" "p = st * (1 + int k)"
      unfolding set_pts by auto
    then show "0 \<le> p \<and> p + ws \<le> ext"
    proof cases
      case 1 with assms show ?thesis by simp
    next
      case 2 with assms show ?thesis by simp
    next
      case 3
      with acc have "p + ws < ext" by simp
      moreover have "0 \<le> p" using 3 st0 by simp
      ultimately show ?thesis by simp
    qed
  qed
  have cover: "(\<Union>p\<in>set pts. {p ..< p + ws}) = {0 ..< ext}"
  proof (intro equalityI subsetI)
    fix x assume "x \<in> (\<Union>p\<in>set pts. {p ..< p + ws})"
    then obtain p where "p \<in> set pts" "p \<le> x" "x < p + ws" by auto
    with bounds show "x \<in> {0 ..< ext}" by fastforce
  next
    fix x assume "x \<in> {0 ..< ext}"
    then have x: "0 \<le> x" "x < ext" by auto
    show "x \<in> (\<Union>p\<in>set pts. {p ..< p + ws})"
    proof (cases "ext - ws \<le> x")
      case True
      have "ext - ws \<in> set pts" unfolding set_pts by simp
      moreover have "x \<in> {ext - ws ..< ext - ws + ws}" using True x by simp
      ultimately show ?thesis by blast
    next
      case False
      then have xlt: "x < ext - ws" by simp
      with fin have "x < st * (1 + int n)" by linarith
      with x(1) have stpos: "0 < st"
        using st0 by (cases "st = 0") auto
      define k where "k = x div st"
      have k0: "0 \<le> k" unfolding k_def using x(1) stpos by (simp add: pos_imp_zdiv_nonneg_iff)
      have dm: "x = st * k + x mod st" unfolding k_def by simp
      have md: "0 \<le> x mod st" "x mod st < st" using stpos by simp_all
      have lo: "st * k \<le> x" using dm md by linarith
      have hi: "x < st * k + st" using dm md by linarith
      have "st * k < st * (1 + int n)" using lo \<open>x < st * (1 + int n)\<close> by linarith
      then have kn: "k < 1 + int n" using stpos by (simp add: mult_less_cancel_left_pos)
      have "st * k \<in> set pts"
      proof (cases "k = 0")
        case True then show ?thesis unfolding set_pts by simp
      next
        case False
        with k0 kn have "nat (k - 1) < n" "k = 1 + int (nat (k - 1))" by auto
        then have "st * k \<in> (\<lambda>k. st * (1 + int k)) ` {0..<n}"
          by (metis atLeastLessThan_iff imageI zero_le)
        then show ?thesis unfolding set_pts by simp
      qed
      moreover have "x \<in> {st * k ..< st * k + ws}" using lo hi stw by simp
      ultimately show ?thesis by blast
    qed
  qed
  have "hd pts = 0" by (simp add: pts)
  moreover have "last pts = ext - ws" by (simp add: pts)
  ultimately show ?thesis using bounds cover by blast
qed

text \<open>
  Claim C1. For \<open>extent \<ge> window_size > 0\<close> and \<open>0 \<le> overlap_fraction < 1\<close>, a grid that
  \<^verbatim>\<open>start_points\<close> returns starts at 0, every offset \<open>p\<close> of it satisfies \<open>0 \<le> p\<close> and
  \<open>p + window_size \<le> extent\<close>, its last offset is \<open>extent - window_size\<close>, and the windows
  \<open>[p, p + window_size)\<close> of its offsets have the union \<open>[0, extent)\<close>.
\<close>

theorem start_points_coverage:
  assumes "0 < ws" "ws \<le> ext" "0 \<le> ov" "ov < 1"
    and "start_points ext ws ov = Some pts"
  shows "hd pts = 0 \<and> (\<forall>p\<in>set pts. 0 \<le> p \<and> p + ws \<le> ext) \<and> last pts = ext - ws
         \<and> (\<Union>p\<in>set pts. {p ..< p + ws}) = {0 ..< ext}"
  using assms by (rule start_points_grid)

theorem start_points_coverage_witness:
  "(0::int) < 256 \<and> (256::int) \<le> 600 \<and> (0::rat) \<le> 1 / 8 \<and> (1::rat) / 8 < 1
   \<and> start_points 600 256 (1 / 8) = Some [0, 224, 344]
   \<and> hd [0, 224, 344 :: int] = 0
   \<and> list_all (\<lambda>p. 0 \<le> p \<and> p + 256 \<le> 600) [0, 224, 344 :: int]
   \<and> last [0, 224, 344 :: int] = 600 - 256
   \<and> (\<Union>p\<in>set [0, 224, 344 :: int]. {p ..< p + 256}) = {0 ..< 600}"
  using start_points_coverage[of 256 600 "1 / 8" "[0, 224, 344]"] start_points_600
  by simp

subsection \<open>Termination\<close>

text \<open>
  Claim C4, as stated, fails: the source has no guard on the stride. With extent 2,
  window size 1 and overlap 1/2 the stride is \<open>int(0.5) = 0\<close>, and the loop does not return.
\<close>

theorem start_points_stride_zero_diverges: "start_points 2 1 (1 / 2) = None"
proof -
  have "py_int (of_int 1 * (1 - 1 / 2)) = 0"
    by (simp add: py_int_def floor_eq_iff)
  then show ?thesis
    unfolding start_points_def by (simp add: start_points_loop_diverges)
qed

text \<open>
  Claim C4, amended. For \<open>extent \<ge> window_size > 0\<close> and \<open>0 \<le> overlap_fraction < 1\<close>, the loop
  of \<^verbatim>\<open>start_points\<close> returns when the computed stride is at least 1, and when the extent
  equals the window size.
\<close>

theorem start_points_terminates:
  assumes "0 < ws" "ws \<le> ext" "0 \<le> ov" "ov < 1"
    and "1 \<le> py_int (of_int ws * (1 - ov)) \<or> ext = ws"
  shows "\<exists>pts. start_points ext ws ov = Some pts"
proof (cases "ext = ws")
  case True
  with start_points_loop_same[OF stride_nonneg[OF assms(1,4)]] show ?thesis
    by (simp add: start_points_def)
next
  case False
  with assms(5) show ?thesis
    unfolding start_points_def by (intro start_points_loop_terminates) simp
qed

theorem start_points_terminates_witness:
  "(0::int) < 256 \<and> (256::int) \<le> 600 \<and> (0::rat) \<le> 1 / 8 \<and> (1::rat) / 8 < 1
   \<and> (1 \<le> py_int (of_int 256 * (1 - 1 / 8)) \<or> (600::int) = 256)
   \<and> (\<exists>pts. start_points 600 256 (1 / 8) = Some pts)"
  using start_points_terminates[of 256 600 "1 / 8"] by (simp add: py_int_def)

subsection \<open>Extent equal to the window size\<close>

text \<open>
  Claim C5, as stated, fails: the loop appends the clamped last point in every run, so
  the grid has at least two entries.
\<close>

theorem start_points_same_size_not_singleton: "start_points 256 256 (1 / 8) \<noteq> Some [0]"
  by code_simp

text \<open>
  Claim C5, amended. For \<open>window_size > 0\<close> and \<open>0 \<le> overlap_fraction < 1\<close>,
  \<^verbatim>\<open>start_points\<close> with the extent equal to the window size returns the grid \<open>[0, 0]\<close>:
  the offset 0 twice.
\<close>

theorem start_points_same_size:
  assumes "0 < ws" "0 \<le> ov" "ov < 1"
  shows "start_points ws ws ov = Some [0, 0]"
  unfolding start_points_def
  by (rule start_points_loop_same[OF stride_nonneg[OF assms(1,3)]])

theorem start_points_same_size_witness:
  "(0::int) < 256 \<and> (0::rat) \<le> 1 / 8 \<and> (1::rat) / 8 < 1
   \<and> start_points 256 256 (1 / 8) = Some [0, 0]"
  using start_points_same_size[of 256 "1 / 8"] by simp

subsection \<open>Monotonicity of the grid size\<close>

text \<open>
  Claim C9. For \<open>extent \<ge> window_size > 0\<close> and overlap fractions \<open>f1 \<le> f2\<close> in \<open>[0, 1)\<close>, when
  both calls of \<^verbatim>\<open>start_points\<close> return, the grid for \<open>f2\<close> has at least as many offsets
  as the grid for \<open>f1\<close>.
\<close>

theorem start_points_count_mono:
  assumes "0 < ws" "ws \<le> ext" "0 \<le> f1" "f1 \<le> f2" "f2 < 1"
    and "start_points ext ws f1 = Some p1" "start_points ext ws f2 = Some p2"
  shows "length p1 \<le> length p2"
proof -
  define s1 where "s1 = py_int (of_int ws * (1 - f1))"
  define s2 where "s2 = py_int (of_int ws * (1 - f2))"
  from start_points_result[OF assms(6)] obtain n1 where
    p1: "p1 = 0 # map (\<lambda>k. s1 * (1 + int k)) [0..<n1] @ [ext - ws]"
    and a1: "\<forall>k<n1. s1 * (1 + int k) + ws < ext"
    unfolding s1_def by blast
  from start_points_result[OF assms(7)] obtain n2 where
    p2: "p2 = 0 # map (\<lambda>k. s2 * (1 + int k)) [0..<n2] @ [ext - ws]"
    and e2: "ext \<le> s2 * (1 + int n2) + ws"
    unfolding s2_def by blast
  have le: "s2 \<le> s1" unfolding s1_def s2_def
    using assms by (intro stride_antimono) auto
  have "n1 \<le> n2"
  proof (rule ccontr)
    assume "\<not> n1 \<le> n2"
    then have "n2 < n1" by simp
    with a1 have "s1 * (1 + int n2) + ws < ext" by blast
    moreover have "s2 * (1 + int n2) \<le> s1 * (1 + int n2)"
      using le by (intro mult_right_mono) auto
    ultimately show False using e2 by linarith
  qed
  then show ?thesis by (simp add: p1 p2)
qed

theorem start_points_count_mono_witness:
  "(0::int) < 256 \<and> (256::int) \<le> 600 \<and> (0::rat) \<le> 0 \<and> (0::rat) \<le> 1 / 2 \<and> (1::rat) / 2 < 1
   \<and> start_points 600 256 0 = Some [0, 256, 344]
   \<and> start_points 600 256 (1 / 2) = Some [0, 128, 256, 344]
   \<and> length [0, 256, 344 :: int] \<le> length [0, 128, 256, 344 :: int]"
proof -
  have a: "start_points 600 256 0 = Some [0, 256, 344]" by code_simp
  have b: "start_points 600 256 (1 / 2) = Some [0, 128, 256, 344]" by code_simp
  show ?thesis
    using start_points_count_mono[of 256 600 0 "1 / 2" "[0, 256, 344]" "[0, 128, 256, 344]"] a b
    by simp
qed

section \<open>Patches and the canvas\<close>

subsection \<open>Arrays, slices and windows\<close>

lemma is_array3_shape3:
  assumes "is_array3 (h, w, c) a" "0 < h" "0 < w"
  shows "shape3 a = (h, w, c)"
proof -
  from assms obtain row rest where a: "a = row # rest"
    by (cases a) (auto simp: is_array3_def)
  with assms have lr: "length row = w" and px: "\<forall>px\<in>set row. length px = c"
    by (auto simp: is_array3_def)
  with assms obtain p ps where row: "row = p # ps" by (cases row) auto
  with px have "length p = c" by simp
  with a row lr assms(1) show ?thesis by (simp add: shape3_def is_array3_def)
qed

lemma is_array3_row:
  assumes "is_array3 (h, w, c) a" "y < h"
  shows "length (a ! y) = w"
proof -
  from assms have "a ! y \<in> set a" by (simp add: is_array3_def)
  with assms(1) show ?thesis by (simp add: is_array3_def)
qed

lemma is_array3_px:
  assumes "is_array3 (h, w, c) a" "y < h" "x < w"
  shows "length (a ! y ! x) = c"
proof -
  from assms have r: "a ! y \<in> set a" by (simp add: is_array3_def)
  with assms(1) have "length (a ! y) = w" by (simp add: is_array3_def)
  with assms have "a ! y ! x \<in> set (a ! y)" by simp
  moreover from r assms(1) have "\<forall>px\<in>set (a ! y). length px = c"
    by (simp add: is_array3_def)
  ultimately show ?thesis by blast
qed

lemma is_array3_zeros: "is_array3 sh (zeros sh)"
  by (cases sh) (simp add: is_array3_def zeros_def)

lemma slice_index_in_range: "0 \<le> a \<Longrightarrow> a \<le> int n \<Longrightarrow> slice_index a n = nat a"
  by (simp add: slice_index_def)

lemma view_range_in_range:
  assumes "0 \<le> i" "0 \<le> s" "i + s \<le> int n"
  shows "view_range i (i + s) n = (nat i, nat i + nat s)"
  using assms by (simp add: view_range_def slice_index_in_range nat_add_distrib)

lemma py_slice_in_range:
  assumes "0 \<le> i" "0 \<le> s" "i + s \<le> int (length xs)"
  shows "py_slice i (i + s) xs = take (nat s) (drop (nat i) xs)"
  using assms by (simp add: py_slice_def view_range_in_range)

lemma window_in_range:
  assumes "is_array3 (h, w, c) img"
    and "0 \<le> i" "0 \<le> j" "0 \<le> s" "i + s \<le> int h" "j + s \<le> int w"
  shows "window img s i j = map (\<lambda>row. take (nat s) (drop (nat j) row)) (take (nat s) (drop (nat i) img))"
proof -
  have len: "length img = h" using assms(1) by (simp add: is_array3_def)
  have rows: "py_slice i (i + s) img = take (nat s) (drop (nat i) img)"
    using assms len by (intro py_slice_in_range) auto
  have "\<And>row. row \<in> set (take (nat s) (drop (nat i) img)) \<Longrightarrow>
          py_slice j (j + s) row = take (nat s) (drop (nat j) row)"
  proof -
    fix row assume "row \<in> set (take (nat s) (drop (nat i) img))"
    then have "row \<in> set img" by (meson in_set_dropD in_set_takeD)
    with assms(1) have "length row = w" by (simp add: is_array3_def)
    with assms show "py_slice j (j + s) row = take (nat s) (drop (nat j) row)"
      by (intro py_slice_in_range) auto
  qed
  then show ?thesis unfolding window_def rows by simp
qed

lemma window_shape:
  assumes "is_array3 (h, w, c) img"
    and "0 \<le> i" "0 \<le> j" "0 \<le> s" "i + s \<le> int h" "j + s \<le> int w"
  shows "is_array3 (nat s, nat s, c) (window img s i j)"
proof -
  have len: "length img = h" using assms(1) by (simp add: is_array3_def)
  have row: "\<And>row. row \<in> set img \<Longrightarrow> length row = w \<and> (\<forall>px\<in>set row. length px = c)"
    using assms(1) by (simp add: is_array3_def)
  have "nat i + nat s \<le> h" "nat j + nat s \<le> w" using assms by linarith+
  then show ?thesis
    unfolding window_in_range[OF assms] is_array3_def
    using len row by (auto dest!: in_set_takeD in_set_dropD)
qed

lemma window_nth:
  assumes "is_array3 (h, w, c) img"
    and "0 \<le> i" "0 \<le> j" "0 \<le> s" "i + s \<le> int h" "j + s \<le> int w"
    and "y < nat s" "x < nat s"
  shows "window img s i j ! y ! x = img ! (nat i + y) ! (nat j + x)"
proof -
  have len: "length img = h" using assms(1) by (simp add: is_array3_def)
  have b: "nat i + nat s \<le> h" "nat j + nat s \<le> w" using assms by linarith+
  then have "nat i + y < h" using assms by simp
  with assms(1) have lr: "length (img ! (nat i + y)) = w" by (intro is_array3_row)
  have r: "take (nat s) (drop (nat i) img) ! y = img ! (nat i + y)"
    using assms(7) b len by simp
  have "y < length (take (nat s) (drop (nat i) img))" using assms(7) b len by simp
  then show ?thesis
    unfolding window_in_range[OF assms(1-6)]
    using assms(8) b lr by (simp add: r)
qed

subsection \<open>Writing a patch into the canvas\<close>

lemma length_stretch: "length (stretch n xs) = n"
  by (simp add: stretch_def)

lemma broadcast_to_shape:
  assumes "broadcast_to sh p = Some q"
  shows "is_array3 sh q"
proof -
  obtain a b c where sh: "sh = (a, b, c)" by (cases sh)
  from assms have "q = map (\<lambda>row. map (stretch c) (stretch b row)) (stretch a p)"
    by (simp add: broadcast_to_def sh split: if_splits)
  then show ?thesis by (auto simp: is_array3_def sh length_stretch)
qed

lemma broadcast_to_same:
  assumes "is_array3 (a, b, c) p"
  shows "broadcast_to (a, b, c) p = Some p"
proof -
  have bc: "broadcastable (a, b, c) p"
    using assms by (auto simp: broadcastable_def is_array3_def)
  have "stretch a p = p" using assms by (simp add: stretch_def is_array3_def)
  moreover have "map (\<lambda>row. map (stretch c) (stretch b row)) p = p"
  proof (rule map_idI)
    fix row assume r: "row \<in> set p"
    with assms have "stretch b row = row" by (simp add: stretch_def is_array3_def)
    moreover have "map (stretch c) row = row"
      using assms r by (intro map_idI) (simp add: stretch_def is_array3_def)
    ultimately show "map (stretch c) (stretch b row) = row" by simp
  qed
  ultimately show ?thesis using bc by (simp add: broadcast_to_def)
qed

lemma assign_window_shape:
  assumes "assign_window (h, w, c) result s i j patch = Inr r"
    and "is_array3 (h, w, c) result"
  shows "is_array3 (h, w, c) r"
proof -
  obtain r0 r1 where vr: "view_range i (i + s) h = (r0, r1)" by (cases "view_range i (i + s) h")
  obtain c0 c1 where vc: "view_range j (j + s) w = (c0, c1)" by (cases "view_range j (j + s) w")
  from assms(1) obtain p where p: "broadcast_to (r1 - r0, c1 - c0, c) patch = Some p"
    and r: "r = map (\<lambda>y. if r0 \<le> y \<and> y < r1
                         then map (\<lambda>x. if c0 \<le> x \<and> x < c1
                                       then p ! (y - r0) ! (x - c0)
                                       else result ! y ! x) [0..<w]
                         else result ! y) [0..<h]"
    by (auto simp: assign_window_def vr vc split: option.splits)
  have ps: "is_array3 (r1 - r0, c1 - c0, c) p" using p by (rule broadcast_to_shape)
  have "length r = h" by (simp add: r)
  moreover have "length row = w \<and> (\<forall>px\<in>set row. length px = c)" if "row \<in> set r" for row
  proof -
    from that obtain y where y: "y < h"
      and row: "row = (if r0 \<le> y \<and> y < r1
                         then map (\<lambda>x. if c0 \<le> x \<and> x < c1
                                       then p ! (y - r0) ! (x - c0)
                                       else result ! y ! x) [0..<w]
                         else result ! y)"
      unfolding r by auto
    show ?thesis
    proof (cases "r0 \<le> y \<and> y < r1")
      case False
      with row have "row = result ! y" by simp
      moreover have "result ! y \<in> set result" using y assms(2) by (simp add: is_array3_def)
      ultimately show ?thesis using assms(2) by (simp add: is_array3_def)
    next
      case True
      with row have row': "row = map (\<lambda>x. if c0 \<le> x \<and> x < c1
                                       then p ! (y - r0) ! (x - c0)
                                       else result ! y ! x) [0..<w]" by simp
      have "length px = c" if "px \<in> set row" for px
      proof -
        from that obtain x where x: "x < w"
          and px: "px = (if c0 \<le> x \<and> x < c1 then p ! (y - r0) ! (x - c0) else result ! y ! x)"
          unfolding row' by auto
        show ?thesis
        proof (cases "c0 \<le> x \<and> x < c1")
          case True
          with px have "px = p ! (y - r0) ! (x - c0)" by simp
          moreover have "y - r0 < r1 - r0" "x - c0 < c1 - c0"
            using True \<open>r0 \<le> y \<and> y < r1\<close> by auto
          ultimately show ?thesis using is_array3_px[OF ps] by simp
        next
          case False
          with px have "px = result ! y ! x" by simp
          then show ?thesis using is_array3_px[OF assms(2) y x] by simp
        qed
      qed
      then show ?thesis by (simp add: row')
    qed
  qed
  ultimately show ?thesis by (simp add: is_array3_def)
qed

lemma assign_window_in_range:
  assumes "is_array3 (nat s, nat s, c) patch"
    and "0 \<le> i" "0 \<le> j" "0 \<le> s" "i + s \<le> int h" "j + s \<le> int w"
  shows "assign_window (h, w, c) result s i j patch =
     Inr (map (\<lambda>y. if nat i \<le> y \<and> y < nat i + nat s
                   then map (\<lambda>x. if nat j \<le> x \<and> x < nat j + nat s
                                 then patch ! (y - nat i) ! (x - nat j)
                                 else result ! y ! x) [0..<w]
                   else result ! y) [0..<h])"
  using assms
  by (simp add: assign_window_def view_range_in_range broadcast_to_same)

lemma assign_window_nth:
  assumes "is_array3 (nat s, nat s, c) patch"
    and "0 \<le> i" "0 \<le> j" "0 \<le> s" "i + s \<le> int h" "j + s \<le> int w"
    and "assign_window (h, w, c) result s i j patch = Inr r"
    and "y < h" "x < w"
  shows "r ! y ! x = (if nat i \<le> y \<and> y < nat i + nat s \<and> nat j \<le> x \<and> x < nat j + nat s
                      then patch ! (y - nat i) ! (x - nat j) else result ! y ! x)"
  using assms(7-9) unfolding assign_window_in_range[OF assms(1-6)] by auto

subsection \<open>Slices of any range\<close>

text \<open>
  A slice that reaches past an end of the list is cut there, and a negative bound counts
  from the end. The window at any pair of offsets is an array whose two sides are the
  lengths of the row slice and of the column slice, and a patch of that shape can be
  written at these offsets.
\<close>

lemma slice_index_le: "slice_index a n \<le> n"
proof (cases "a < 0")
  case True
  then have "nat (max 0 (a + int n)) \<le> n" by linarith
  with True show ?thesis by (simp add: slice_index_def)
next
  case False
  then show ?thesis by (simp add: slice_index_def)
qed

lemma length_py_slice: "length (py_slice a b xs) = view_len a b (length xs)"
proof -
  have "max (slice_index a (length xs)) (slice_index b (length xs)) \<le> length xs"
    using slice_index_le[of a "length xs"] slice_index_le[of b "length xs"] by simp
  then have "min (length xs - slice_index a (length xs))
      (max (slice_index a (length xs)) (slice_index b (length xs)) - slice_index a (length xs))
     = max (slice_index a (length xs)) (slice_index b (length xs)) - slice_index a (length xs)"
    by linarith
  then show ?thesis
    by (simp add: py_slice_def view_range_def view_len_def)
qed

lemma set_py_slice: "set (py_slice a b xs) \<subseteq> set xs"
proof -
  obtain lo hi where "view_range a b (length xs) = (lo, hi)" by (cases "view_range a b (length xs)")
  then have "py_slice a b xs = take (hi - lo) (drop lo xs)" by (simp add: py_slice_def)
  then show ?thesis by (metis set_drop_subset set_take_subset subset_trans)
qed

lemma window_view_shape:
  assumes "is_array3 (H, W, C) img"
  shows "is_array3 (view_len i (i + s) H, view_len j (j + s) W, C) (window img s i j)"
proof -
  have len: "length img = H" using assms by (simp add: is_array3_def)
  have l: "length (window img s i j) = view_len i (i + s) H"
    by (simp add: window_def length_py_slice len)
  have "length row = view_len j (j + s) W \<and> (\<forall>px\<in>set row. length px = C)"
    if "row \<in> set (window img s i j)" for row
  proof -
    from that obtain r where r: "r \<in> set (py_slice i (i + s) img)" and row: "row = py_slice j (j + s) r"
      by (auto simp: window_def)
    from r have rin: "r \<in> set img" by (rule set_py_slice[THEN subsetD])
    with assms have lr: "length r = W" and px: "\<forall>px\<in>set r. length px = C"
      by (simp_all add: is_array3_def)
    have "length row = view_len j (j + s) W" unfolding row by (simp add: length_py_slice lr)
    moreover have "set row \<subseteq> set r" unfolding row by (rule set_py_slice)
    ultimately show ?thesis using px by blast
  qed
  with l show ?thesis by (simp add: is_array3_def)
qed


lemma map3_shape: "is_array3 sh a \<Longrightarrow> is_array3 sh (map (map (map f)) a)"
  by (cases sh) (auto simp: is_array3_def)

subsection \<open>The loop of \<^verbatim>\<open>reconstruct\<close>\<close>

text \<open>
  The loop raises at its first step when the patches are a numpy array. On torch patches
  it keeps the shape of the canvas, and it returns when every patch has the shape of the
  view it is written to. When the patches are the windows of an image, every pixel that
  some window covers ends up as the pixel of the image converted to float32: a later
  write on an overlap writes the same value.
\<close>

lemma reconstruct_loop_numpy:
  assumes "pairs \<noteq> []" "count < length ps"
  shows "reconstruct_loop sh (Numpy ps) s pairs count result = Inl TypeError"
proof -
  from assms(1) obtain i j rest where "pairs = (i, j) # rest" by (cases pairs) auto
  with assms(2) show ?thesis by simp
qed

lemma reconstruct_loop_keeps_shape:
  assumes "reconstruct_loop sh splits s pairs count result = Inr r" "is_array3 sh result"
  shows "is_array3 sh r"
  using assms
proof (induction pairs arbitrary: count result)
  case Nil
  then show ?case by simp
next
  case (Cons ij rest)
  obtain i j where ij: "ij = (i, j)" by (cases ij)
  obtain h w c where sh: "sh = (h, w, c)" by (cases sh)
  from Cons.prems(1) obtain ps where ps: "splits = Torch ps" and cnt: "count < length ps"
    by (cases splits) (auto simp: ij split: if_splits)
  from Cons.prems(1) ps cnt obtain r' where
    r': "assign_window sh result s i j (map (map (map float32)) (ps ! count)) = Inr r'"
    and rest: "reconstruct_loop sh splits s rest (count + 1) r' = Inr r"
    by (cases "assign_window sh result s i j (map (map (map float32)) (ps ! count))") (auto simp: ij)
  have "is_array3 sh r'"
    using assign_window_shape[OF r'[unfolded sh]] Cons.prems(2) by (simp add: sh)
  from Cons.IH[OF rest this] show ?case .
qed


lemma reconstruct_loop_agrees:
  assumes "is_array3 (h, w, c) result" "0 \<le> s" "is_array3 (h, w, c) img"
    and "\<forall>ij\<in>set pairs. 0 \<le> fst ij \<and> fst ij + s \<le> int h \<and> 0 \<le> snd ij \<and> snd ij + s \<le> int w"
    and "count + length pairs \<le> length ps"
    and "\<forall>k<length pairs. ps ! (count + k) = window img s (fst (pairs ! k)) (snd (pairs ! k))"
    and "\<forall>y<h. \<forall>x<w. S y x \<longrightarrow> result ! y ! x = map float32 (img ! y ! x)"
  shows "\<exists>r. reconstruct_loop (h, w, c) (Torch ps) s pairs count result = Inr r \<and> is_array3 (h, w, c) r
           \<and> (\<forall>y<h. \<forall>x<w. S y x \<or> (\<exists>ij\<in>set pairs. in_window s ij y x) \<longrightarrow> r ! y ! x = map float32 (img ! y ! x))"
  using assms
proof (induction pairs arbitrary: count result S)
  case Nil
  then show ?case by simp
next
  case (Cons ij rest)
  obtain i j where ij: "ij = (i, j)" by (cases ij)
  from Cons.prems(4) ij have rng: "0 \<le> i" "0 \<le> j" "i + s \<le> int h" "j + s \<le> int w" by auto
  from Cons.prems(6) have "ps ! (count + 0) = window img s (fst ((ij # rest) ! 0)) (snd ((ij # rest) ! 0))"
    by blast
  then have p0: "ps ! count = window img s i j" by (simp add: ij)
  have ws: "is_array3 (nat s, nat s, c) (ps ! count)"
    unfolding p0 by (rule window_shape[OF Cons.prems(3) rng(1,2) Cons.prems(2) rng(3,4)])
  define cp where "cp = map (map (map float32)) (ps ! count)"
  have cs: "is_array3 (nat s, nat s, c) cp" unfolding cp_def by (rule map3_shape[OF ws])
  from Cons.prems(5) have cnt: "count < length ps" by simp
  obtain r' where r': "assign_window (h, w, c) result s i j cp = Inr r'"
    using assign_window_in_range[OF cs rng(1,2) Cons.prems(2) rng(3,4)] by blast
  have sh': "is_array3 (h, w, c) r'" by (rule assign_window_shape[OF r' Cons.prems(1)])
  define S' where "S' = (\<lambda>y x. S y x \<or> in_window s ij y x)"
  have agree': "\<forall>y<h. \<forall>x<w. S' y x \<longrightarrow> r' ! y ! x = map float32 (img ! y ! x)"
  proof (intro allI impI)
    fix y x assume y: "y < h" and x: "x < w" and S': "S' y x"
    have nth: "r' ! y ! x = (if nat i \<le> y \<and> y < nat i + nat s \<and> nat j \<le> x \<and> x < nat j + nat s
                      then cp ! (y - nat i) ! (x - nat j) else result ! y ! x)"
      by (rule assign_window_nth[OF cs rng(1,2) Cons.prems(2) rng(3,4) r' y x])
    show "r' ! y ! x = map float32 (img ! y ! x)"
    proof (cases "in_window s ij y x")
      case True
      then have w: "nat i \<le> y" "y < nat i + nat s" "nat j \<le> x" "x < nat j + nat s"
        by (simp_all add: in_window_def ij)
      then have d: "y - nat i < nat s" "x - nat j < nat s" by auto
      then have "window img s i j ! (y - nat i) ! (x - nat j)
                   = img ! (nat i + (y - nat i)) ! (nat j + (x - nat j))"
        by (rule window_nth[OF Cons.prems(3) rng(1,2) Cons.prems(2) rng(3,4)])
      with w p0 have src: "ps ! count ! (y - nat i) ! (x - nat j) = img ! y ! x" by simp
      have l1: "y - nat i < length (ps ! count)" using ws d(1) by (simp add: is_array3_def)
      have l2: "x - nat j < length (ps ! count ! (y - nat i))"
        using is_array3_row[OF ws d(1)] d(2) by simp
      have "cp ! (y - nat i) ! (x - nat j) = map float32 (ps ! count ! (y - nat i) ! (x - nat j))"
        unfolding cp_def using l1 l2 by simp
      with w nth src show ?thesis by simp
    next
      case False
      with S' have "S y x" by (simp add: S'_def)
      with Cons.prems(7) y x have "result ! y ! x = map float32 (img ! y ! x)" by blast
      moreover from False
      have "\<not> (nat i \<le> y \<and> y < nat i + nat s \<and> nat j \<le> x \<and> x < nat j + nat s)"
        by (simp add: in_window_def ij)
      then have "r' ! y ! x = result ! y ! x"
        unfolding nth by (rule if_not_P)
      ultimately show ?thesis by simp
    qed
  qed
  have "\<forall>k<length rest. ps ! (count + 1 + k) = window img s (fst (rest ! k)) (snd (rest ! k))"
  proof (intro allI impI)
    fix k assume "k < length rest"
    then have "Suc k < length (ij # rest)" by simp
    with Cons.prems(6) have "ps ! (count + Suc k)
        = window img s (fst ((ij # rest) ! Suc k)) (snd ((ij # rest) ! Suc k))" by blast
    then show "ps ! (count + 1 + k) = window img s (fst (rest ! k)) (snd (rest ! k))" by simp
  qed
  moreover have "count + 1 + length rest \<le> length ps" using Cons.prems(5) by simp
  moreover have "\<forall>ij\<in>set rest. 0 \<le> fst ij \<and> fst ij + s \<le> int h \<and> 0 \<le> snd ij \<and> snd ij + s \<le> int w"
    using Cons.prems(4) by simp
  ultimately obtain r where
    r: "reconstruct_loop (h, w, c) (Torch ps) s rest (count + 1) r' = Inr r" "is_array3 (h, w, c) r"
    and ag: "\<forall>y<h. \<forall>x<w. S' y x \<or> (\<exists>ij\<in>set rest. in_window s ij y x) \<longrightarrow> r ! y ! x = map float32 (img ! y ! x)"
    using Cons.IH[OF sh' Cons.prems(2,3) _ _ _ agree'] by blast
  have "reconstruct_loop (h, w, c) (Torch ps) s (ij # rest) count result = Inr r"
    using cnt r' r(1) by (simp add: ij cp_def)
  moreover have "\<forall>y<h. \<forall>x<w. S y x \<or> (\<exists>ij\<in>set (ij # rest). in_window s ij y x) \<longrightarrow> r ! y ! x = map float32 (img ! y ! x)"
    using ag unfolding S'_def by auto
  ultimately show ?case using r(2) by blast
qed

lemma array3_eqI:
  assumes "is_array3 (h, w, c) a" "is_array3 (h, w, c) b"
    and "\<forall>y<h. \<forall>x<w. a ! y ! x = b ! y ! x"
  shows "a = b"
proof (rule nth_equalityI)
  show "length a = length b" using assms by (simp add: is_array3_def)
next
  fix y assume "y < length a"
  then have y: "y < h" using assms(1) by (simp add: is_array3_def)
  show "a ! y = b ! y"
  proof (rule nth_equalityI)
    show "length (a ! y) = length (b ! y)"
      using is_array3_row[OF assms(1) y] is_array3_row[OF assms(2) y] by simp
  next
    fix x assume "x < length (a ! y)"
    then have "x < w" using is_array3_row[OF assms(1) y] by simp
    with assms(3) y show "a ! y ! x = b ! y ! x" by blast
  qed
qed

lemma map_product_concat:
  "map f (List.product ys xs) = concat (map (\<lambda>i. map (\<lambda>j. f (i, j)) xs) ys)"
  by (induction ys) (simp_all add: comp_def)

subsection \<open>Splitting and writing back\<close>

lemma patchify_in_range:
  assumes "is_array3 (H, W, C) img" "0 < H" "0 < W"
    and "start_points (int H) ws ov = Some Y" "start_points (int W) ws ov = Some X"
  shows "patchify img ws ov =
           Some (map (\<lambda>ij. window img ws (fst ij) (snd ij)) (List.product Y X), X, Y)"
  using assms(4,5)
  by (simp add: patchify_def is_array3_shape3[OF assms(1-3)] map_product_concat)

lemma grid_covers:
  assumes "0 < ws" "ws \<le> int n" "0 \<le> ov" "ov < 1" "start_points (int n) ws ov = Some pts" "y < n"
  shows "\<exists>p\<in>set pts. nat p \<le> y \<and> y < nat p + nat ws"
proof -
  from start_points_grid[OF assms(1-5)]
  have b: "\<forall>p\<in>set pts. 0 \<le> p \<and> p + ws \<le> int n"
    and c: "(\<Union>p\<in>set pts. {p ..< p + ws}) = {0 ..< int n}" by blast+
  have "int y \<in> {0 ..< int n}" using assms(6) by simp
  then have "int y \<in> (\<Union>p\<in>set pts. {p ..< p + ws})" unfolding c .
  then obtain p where p: "p \<in> set pts" "p \<le> int y" "int y < p + ws" by auto
  with b have "0 \<le> p" by blast
  with p assms(1) have "nat p \<le> y \<and> y < nat p + nat ws" by linarith
  with p(1) show ?thesis by blast
qed

lemma roundtrip_general:
  assumes "is_array3 (H, W, C) img" "0 < ws" "ws \<le> int H" "ws \<le> int W" "0 \<le> ov" "ov < 1"
    and "patchify img ws ov = Some (splits, X, Y)"
  shows "reconstruct (Torch splits) ws ov' (H, W, C) X Y = Inr (map (map (map float32)) img)"
proof -
  have pos: "0 < H" "0 < W" using assms(2-4) by linarith+
  have sh: "shape3 img = (H, W, C)" by (rule is_array3_shape3[OF assms(1) pos])
  from assms(7) have Y: "start_points (int H) ws ov = Some Y"
    and X: "start_points (int W) ws ov = Some X"
    by (auto simp: patchify_def sh split: option.splits)
  define pairs where "pairs = List.product Y X"
  have splits: "splits = map (\<lambda>ij. window img ws (fst ij) (snd ij)) pairs"
    using assms(7) unfolding patchify_in_range[OF assms(1) pos Y X] pairs_def by simp
  have bY: "\<forall>p\<in>set Y. 0 \<le> p \<and> p + ws \<le> int H"
    using start_points_grid[OF assms(2,3,5,6) Y] by blast
  have bX: "\<forall>p\<in>set X. 0 \<le> p \<and> p + ws \<le> int W"
    using start_points_grid[OF assms(2,4,5,6) X] by blast
  have rng: "\<forall>ij\<in>set pairs. 0 \<le> fst ij \<and> fst ij + ws \<le> int H \<and> 0 \<le> snd ij \<and> snd ij + ws \<le> int W"
    using bX bY unfolding pairs_def by auto
  have nth: "\<forall>k<length pairs. splits ! (0 + k) = window img ws (fst (pairs ! k)) (snd (pairs ! k))"
    by (simp add: splits)
  have len: "0 + length pairs \<le> length splits" by (simp add: splits)
  have z: "\<forall>y<H. \<forall>x<W. False \<longrightarrow> (zeros (H, W, C) :: rat array3) ! y ! x = map float32 (img ! y ! x)"
    by simp
  from reconstruct_loop_agrees[OF is_array3_zeros _ assms(1) rng len nth z] assms(2)
  obtain r where r: "reconstruct_loop (H, W, C) (Torch splits) ws pairs 0 (zeros (H, W, C)) = Inr r"
    and rs: "is_array3 (H, W, C) r"
    and ag: "\<forall>y<H. \<forall>x<W. False \<or> (\<exists>ij\<in>set pairs. in_window ws ij y x) \<longrightarrow> r ! y ! x = map float32 (img ! y ! x)"
    by auto
  have cs: "is_array3 (H, W, C) (map (map (map float32)) img)" by (rule map3_shape[OF assms(1)])
  have "\<forall>y<H. \<forall>x<W. r ! y ! x = map (map (map float32)) img ! y ! x"
  proof (intro allI impI)
    fix y x assume y: "y < H" and x: "x < W"
    from grid_covers[OF assms(2,3,5,6) Y y] obtain i where
      i: "i \<in> set Y" "nat i \<le> y \<and> y < nat i + nat ws" by blast
    from grid_covers[OF assms(2,4,5,6) X x] obtain j where
      j: "j \<in> set X" "nat j \<le> x \<and> x < nat j + nat ws" by blast
    have "(i, j) \<in> set pairs" using i j by (simp add: pairs_def)
    moreover have "in_window ws (i, j) y x" using i j by (simp add: in_window_def)
    ultimately have "r ! y ! x = map float32 (img ! y ! x)" using ag y x by blast
    moreover have "y < length img" using assms(1) y by (simp add: is_array3_def)
    moreover have "x < length (img ! y)" using is_array3_row[OF assms(1) y] x by simp
    ultimately show "r ! y ! x = map (map (map float32)) img ! y ! x" by simp
  qed
  then have "r = map (map (map float32)) img" by (rule array3_eqI[OF rs cs])
  with r show ?thesis by (simp add: reconstruct_def pairs_def)
qed

lemma map3_fixed:
  assumes "\<forall>v\<in>values3 img. float32 v = v"
  shows "map (map (map float32)) img = img"
proof (rule map_idI)
  fix row assume row: "row \<in> set img"
  show "map (map float32) row = row"
  proof (rule map_idI)
    fix px assume px: "px \<in> set row"
    show "map float32 px = px"
    proof (rule map_idI)
      fix v assume "v \<in> set px"
      with row px have "v \<in> values3 img" by (auto simp: values3_def)
      with assms show "float32 v = v" by blast
    qed
  qed
qed

lemma reconstruct_numpy:
  assumes "X \<noteq> []" "Y \<noteq> []" "ps \<noteq> []"
  shows "reconstruct (Numpy ps) s ov sh X Y = Inl TypeError"
proof -
  have "List.product Y X \<noteq> []" using assms(1,2) by (cases Y; cases X) simp_all
  then show ?thesis
    unfolding reconstruct_def using assms(3) by (intro reconstruct_loop_numpy) simp_all
qed

text \<open>
  Claim C2, as stated, fails. \<^verbatim>\<open>patchify\<close> returns its patches as a numpy array, and the
  assignment of a numpy patch into the torch canvas of \<^verbatim>\<open>reconstruct\<close> raises
  \<^verbatim>\<open>TypeError\<close>: so for the image of shape (2, 4, 1) with the values 1 to 8 and window
  size 2. When the patches are made a torch tensor first, the canvas holds every value
  rounded to float32: the image of shape (1, 1, 1) with the value 16777217 comes back with
  the value 16777216.
\<close>

theorem patchify_reconstruct_numpy_raises:
  "patchify [[[1], [2], [3], [4]], [[5], [6], [7], [8 :: rat]]] 2 0
     = Some ([[[[1], [2]], [[5], [6]]], [[[3], [4]], [[7], [8]]],
              [[[1], [2]], [[5], [6]]], [[[3], [4]], [[7], [8]]]], [0, 2], [0, 0])
   \<and> reconstruct
         (Numpy [[[[1], [2]], [[5], [6]]], [[[3], [4]], [[7], [8]]],
                 [[[1], [2]], [[5], [6]]], [[[3], [4]], [[7], [8]]]])
         2 0 (2, 4, 1) [0, 2] [0, 0] = Inl TypeError
   \<and> patchify [[[16777217 :: rat]]] 1 0
     = Some ([[[[16777217]]], [[[16777217]]], [[[16777217]]], [[[16777217]]]], [0, 0], [0, 0])
   \<and> reconstruct
         (Torch [[[[16777217]]], [[[16777217]]], [[[16777217]]], [[[16777217]]]])
         1 0 (1, 1, 1) [0, 0] [0, 0] = Inr [[[16777216]]]"
  by code_simp

text \<open>
  Claim C2, amended. For an image whose height and width are exact positive multiples of
  the window size and whose values are all float32 numbers, \<^verbatim>\<open>patchify\<close> with overlap 0
  returns, and \<^verbatim>\<open>reconstruct\<close> of its patches as a torch tensor, with the same window size,
  the same grids and the shape of the image, is the image.
\<close>

theorem patchify_reconstruct_roundtrip:
  assumes "is_array3 (H, W, C) img" "0 < ws" "0 < kh" "0 < kw"
    and "int H = kh * ws" "int W = kw * ws"
    and "\<forall>v\<in>values3 img. float32 v = v"
  shows "\<exists>splits X Y. patchify img ws 0 = Some (splits, X, Y)
           \<and> reconstruct (Torch splits) ws 0 (H, W, C) X Y = Inr img"
proof -
  have le: "ws \<le> int H" "ws \<le> int W"
    using assms(2-6) by (simp_all add: mult_le_cancel_right1)
  have pos: "0 < H" "0 < W" using assms(2) le by linarith+
  have st: "py_int (of_int ws * (1 - 0)) = ws" using assms(2) by (simp add: py_int_def)
  obtain Y where Y: "start_points (int H) ws 0 = Some Y"
    unfolding start_points_def st
    using start_points_loop_terminates[of ws] assms(2) by fastforce
  obtain X where X: "start_points (int W) ws 0 = Some X"
    unfolding start_points_def st
    using start_points_loop_terminates[of ws] assms(2) by fastforce
  define splits where "splits = map (\<lambda>ij. window img ws (fst ij) (snd ij)) (List.product Y X)"
  have p: "patchify img ws 0 = Some (splits, X, Y)"
    unfolding splits_def by (rule patchify_in_range[OF assms(1) pos Y X])
  have "reconstruct (Torch splits) ws 0 (H, W, C) X Y = Inr (map (map (map float32)) img)"
    by (rule roundtrip_general[OF assms(1,2) le _ _ p]) simp_all
  then have "reconstruct (Torch splits) ws 0 (H, W, C) X Y = Inr img"
    by (simp only: map3_fixed[OF assms(7)])
  with p show ?thesis by blast
qed

theorem patchify_reconstruct_roundtrip_witness:
  "is_array3 (2, 4, 1) [[[1], [2], [3], [4]], [[5], [6], [7], [8 :: rat]]]
   \<and> (0::int) < 2 \<and> (0::int) < 1 \<and> (0::int) < 2 \<and> int 2 = 1 * 2 \<and> int 4 = 2 * 2
   \<and> list_all (\<lambda>v. float32 v = v) [1, 2, 3, 4, 5, 6, 7, 8]
   \<and> (\<exists>splits X Y.
         patchify [[[1], [2], [3], [4]], [[5], [6], [7], [8 :: rat]]] 2 0 = Some (splits, X, Y)
         \<and> reconstruct (Torch splits) 2 0 (2, 4, 1) X Y
             = Inr [[[1], [2], [3], [4]], [[5], [6], [7], [8]]])"
proof -
  have e: "list_all (\<lambda>v. float32 v = v) [1, 2, 3, 4, 5, 6, 7, 8]" by code_simp
  then have f: "\<forall>v\<in>values3 [[[1], [2], [3], [4]], [[5], [6], [7], [8 :: rat]]]. float32 v = v"
    by (simp add: values3_def)
  have a: "is_array3 (2, 4, 1) [[[1], [2], [3], [4]], [[5], [6], [7], [8 :: rat]]]"
    by (simp add: is_array3_def)
  from patchify_reconstruct_roundtrip[OF a, of 2 1 2] f
  have "\<exists>splits X Y.
         patchify [[[1], [2], [3], [4]], [[5], [6], [7], [8 :: rat]]] 2 0 = Some (splits, X, Y)
         \<and> reconstruct (Torch splits) 2 0 (2, 4, 1) X Y
             = Inr [[[1], [2], [3], [4]], [[5], [6], [7], [8]]]"
    by simp
  with a e show ?thesis by simp
qed

text \<open>
  Claim C6, as stated, fails in its last part. For the image of shape (600, 600, 3) of
  zeros the grids are \<open>[0, 224, 344]\<close> and \<^verbatim>\<open>patchify\<close> returns 9 patches, but
  \<^verbatim>\<open>reconstruct\<close> of those patches, a numpy array, raises \<^verbatim>\<open>TypeError\<close> and returns no
  array.
\<close>

theorem scenario_600_numpy_raises:
  "patchify (zeros (600, 600, 3) :: rat array3) 256 (1 / 8)
     = Some ([window (zeros (600, 600, 3)) 256 0 0, window (zeros (600, 600, 3)) 256 0 224,
              window (zeros (600, 600, 3)) 256 0 344, window (zeros (600, 600, 3)) 256 224 0,
              window (zeros (600, 600, 3)) 256 224 224, window (zeros (600, 600, 3)) 256 224 344,
              window (zeros (600, 600, 3)) 256 344 0, window (zeros (600, 600, 3)) 256 344 224,
              window (zeros (600, 600, 3)) 256 344 344], [0, 224, 344], [0, 224, 344])
   \<and> reconstruct
         (Numpy [window (zeros (600, 600, 3) :: rat array3) 256 0 0,
                 window (zeros (600, 600, 3)) 256 0 224,
                 window (zeros (600, 600, 3)) 256 0 344, window (zeros (600, 600, 3)) 256 224 0,
                 window (zeros (600, 600, 3)) 256 224 224, window (zeros (600, 600, 3)) 256 224 344,
                 window (zeros (600, 600, 3)) 256 344 0, window (zeros (600, 600, 3)) 256 344 224,
                 window (zeros (600, 600, 3)) 256 344 344])
         256 (1 / 8) (600, 600, 3) [0, 224, 344] [0, 224, 344] = Inl TypeError"
proof -
  have g: "start_points (int 600) 256 (1 / 8) = Some [0, 224, 344]"
    using start_points_600 by simp
  have "patchify (zeros (600, 600, 3) :: rat array3) 256 (1 / 8) =
      Some (map (\<lambda>ij. window (zeros (600, 600, 3)) 256 (fst ij) (snd ij))
              (List.product [0, 224, 344] [0, 224, 344]), [0, 224, 344], [0, 224, 344])"
    by (rule patchify_in_range[OF is_array3_zeros _ _ g g]) simp_all
  then have p: "patchify (zeros (600, 600, 3) :: rat array3) 256 (1 / 8)
     = Some ([window (zeros (600, 600, 3)) 256 0 0, window (zeros (600, 600, 3)) 256 0 224,
              window (zeros (600, 600, 3)) 256 0 344, window (zeros (600, 600, 3)) 256 224 0,
              window (zeros (600, 600, 3)) 256 224 224, window (zeros (600, 600, 3)) 256 224 344,
              window (zeros (600, 600, 3)) 256 344 0, window (zeros (600, 600, 3)) 256 344 224,
              window (zeros (600, 600, 3)) 256 344 344], [0, 224, 344], [0, 224, 344])"
    by simp
  show ?thesis
    by (rule conjI[OF p]) (rule reconstruct_numpy, simp_all)
qed

text \<open>
  Claim C6, amended. \<^verbatim>\<open>start_points\<close> with extent 600, window size 256 and overlap 0.125
  returns \<open>[0, 224, 344]\<close>; \<^verbatim>\<open>patchify\<close> of an image of shape (600, 600, 3) with window
  size 256 and overlap 1/8 gives 9 patches on these grids, and \<^verbatim>\<open>reconstruct\<close> of the 9
  patches as a torch tensor with the target shape (600, 600, 3) gives an array of shape
  (600, 600, 3).
\<close>

theorem scenario_600:
  assumes "is_array3 (600, 600, 3) img"
  shows "start_points 600 256 (1 / 8) = Some [0, 224, 344]
         \<and> (\<exists>splits. patchify img 256 (1 / 8) = Some (splits, [0, 224, 344], [0, 224, 344])
              \<and> length splits = 9
              \<and> (\<exists>r. reconstruct (Torch splits) 256 (1 / 8) (600, 600, 3)
                         [0, 224, 344] [0, 224, 344] = Inr r
                     \<and> is_array3 (600, 600, 3) r))"
proof -
  have g: "start_points (int 600) 256 (1 / 8) = Some [0, 224, 344]"
    using start_points_600 by simp
  have p: "patchify img 256 (1 / 8) =
      Some (map (\<lambda>ij. window img 256 (fst ij) (snd ij)) (List.product [0, 224, 344] [0, 224, 344]),
            [0, 224, 344], [0, 224, 344])"
    by (rule patchify_in_range[OF assms _ _ g g]) simp_all
  have "reconstruct
          (Torch (map (\<lambda>ij. window img 256 (fst ij) (snd ij)) (List.product [0, 224, 344] [0, 224, 344])))
          256 (1 / 8) (600, 600, 3) [0, 224, 344] [0, 224, 344] = Inr (map (map (map float32)) img)"
    by (rule roundtrip_general[OF assms _ _ _ _ _ p]) simp_all
  moreover have "is_array3 (600, 600, 3) (map (map (map float32)) img)" by (rule map3_shape[OF assms])
  moreover have "length (map (\<lambda>ij. window img 256 (fst ij) (snd ij))
                   (List.product [0, 224, 344 :: int] [0, 224, 344 :: int])) = 9"
    by simp
  ultimately show ?thesis using p start_points_600 by blast
qed

theorem scenario_600_witness:
  "is_array3 (600, 600, 3) (zeros (600, 600, 3) :: rat array3)
   \<and> start_points 600 256 (1 / 8) = Some [0, 224, 344]
   \<and> (\<exists>splits. patchify (zeros (600, 600, 3) :: rat array3) 256 (1 / 8)
                   = Some (splits, [0, 224, 344], [0, 224, 344])
              \<and> length splits = 9
              \<and> (\<exists>r. reconstruct (Torch splits) 256 (1 / 8) (600, 600, 3)
                         [0, 224, 344] [0, 224, 344] = Inr r
                     \<and> is_array3 (600, 600, 3) r))"
  using scenario_600[of "zeros (600, 600, 3) :: rat array3"]
    is_array3_zeros[of "(600, 600, 3)"]
  by blast


section \<open>The orchestrator \<^verbatim>\<open>_inference\<close>\<close>

subsection \<open>Resolving a path\<close>

text \<open>
  After a numeric-array load that returned, the outcome of a path is the outcome of the
  image load alone.
\<close>

lemma load_input_path:
  assumes "np_load fs p = Returned a"
  shows "load_input fs (PathInput p) =
           (case image_open fs p of
              Returned b \<Rightarrow> Inr (b, p)
            | Raised e \<Rightarrow> if caught e then Inl (ValueError ''Invalid path.'') else Inl e)"
proof (cases "image_open fs p")
  case (Returned b)
  with assms show ?thesis by (simp add: load_input_def try_load_def)
next
  case (Raised e)
  with assms show ?thesis by (simp add: load_input_def try_load_def)
qed

text \<open>
  Claim C3 says that for a path the numeric-array load is tried first, that the first
  load that succeeds provides the image, and that the error is raised only when both
  loads fail. The source's comment and its error message say the same, but the second
  \<^verbatim>\<open>try\<close> block binds \<open>image\<close> again whatever the first one did: on a path where
  \<^verbatim>\<open>np.load\<close> returns an array and \<^verbatim>\<open>Image.open\<close> raises \<open>IOError\<close>, the source raises
  \<^verbatim>\<open>ValueError("Invalid path.")\<close>.
\<close>

theorem load_input_numpy_result_lost: "load_input npy_only (PathInput ''a.npy'') = Inl (ValueError ''Invalid path.'')"
  by (simp add: load_input_def try_load_def npy_only_def)

subsection \<open>The split decision\<close>

lemma length_concat_grid:
  "length (concat (map (\<lambda>i. map (f i) xs) ys)) = length ys * length xs"
  by (induction ys) simp_all

lemma start_points_length:
  assumes "start_points sz ws ov = Some pts"
  shows "2 \<le> length pts"
proof -
  from start_points_loop_result[OF assms[unfolded start_points_def]]
  obtain n where "pts = [0] @ map (\<lambda>k. py_int (of_int ws * (1 - ov)) * (1 + int k)) [0..<n] @ [sz - ws]"
    by blast
  then show ?thesis by simp
qed

lemma split_or_wrap_small:
  assumes "shape3 img = (H, W, C)" "\<not> (int H > ws * 2 \<or> int W > ws * 2)"
  shows "split_or_wrap img ws = Some ([img], None)"
  using assms by (simp add: split_or_wrap_def)

lemma split_or_wrap_large:
  assumes "shape3 img = (H, W, C)" "int H > ws * 2 \<or> int W > ws * 2"
  shows "split_or_wrap img ws =
               (case patchify img ws (1 / 8) of
                  None \<Rightarrow> None
                | Some (splits, X, Y) \<Rightarrow> Some (splits, Some ((H, W, C), X, Y)))"
proof -
  have "split_or_wrap img ws =
               (case patchify img ws (1 / 8) of
                  None \<Rightarrow> None
                | Some (splits, X_points, Y_points) \<Rightarrow>
                    Some (splits, Some (shape3 img, X_points, Y_points)))"
    unfolding split_or_wrap_def using assms by (simp only: fst_conv snd_conv if_True)
  then show ?thesis by (simp only: assms(1))
qed

lemma patchify_Some:
  assumes "patchify img ws ov = Some (batch, X, Y)" "shape3 img = (H, W, C)"
  shows "start_points (int H) ws ov = Some Y" "start_points (int W) ws ov = Some X"
    "batch = concat (map (\<lambda>i. map (\<lambda>j. window img ws i j) X) Y)"
proof -
  obtain Y' where Y': "start_points (int H) ws ov = Some Y'"
    using assms by (cases "start_points (int H) ws ov") (simp_all add: patchify_def)
  obtain X' where X': "start_points (int W) ws ov = Some X'"
    using assms Y' by (cases "start_points (int W) ws ov") (simp_all add: patchify_def)
  from assms Y' X' have "Y' = Y" "X' = X"
    "batch = concat (map (\<lambda>i. map (\<lambda>j. window img ws i j) X') Y')"
    by (auto simp: patchify_def)
  with Y' X' show "start_points (int H) ws ov = Some Y" "start_points (int W) ws ov = Some X"
    "batch = concat (map (\<lambda>i. map (\<lambda>j. window img ws i j) X) Y)" by blast+
qed

text \<open>
  Claim C7. \<^verbatim>\<open>_inference\<close> keeps the image as a single-item batch exactly when neither its
  height nor its width exceeds twice the window size; otherwise the batch is what
  \<^verbatim>\<open>patchify\<close> with overlap 1/8 returns, which has at least four patches. An image of
  shape (256, 256, 3) with window size 256 is a single-item batch.
\<close>

theorem split_decision:
  assumes "shape3 img = (H, W, C)"
  shows "(split_or_wrap img ws = Some ([img], None)) = (\<not> (int H > ws * 2 \<or> int W > ws * 2))
       \<and> ((int H > ws * 2 \<or> int W > ws * 2) \<longrightarrow>
             split_or_wrap img ws =
               (case patchify img ws (1 / 8) of
                  None \<Rightarrow> None
                | Some (splits, X, Y) \<Rightarrow> Some (splits, Some ((H, W, C), X, Y))))
       \<and> (\<forall>batch g. (int H > ws * 2 \<or> int W > ws * 2) \<and> split_or_wrap img ws = Some (batch, g)
             \<longrightarrow> 4 \<le> length batch)"
proof (intro conjI allI impI)
  show "(split_or_wrap img ws = Some ([img], None)) = (\<not> (int H > ws * 2 \<or> int W > ws * 2))"
  proof (cases "int H > ws * 2 \<or> int W > ws * 2")
    case False
    with split_or_wrap_small[OF assms False] show ?thesis by simp
  next
    case True
    have "split_or_wrap img ws \<noteq> Some ([img], None)"
      unfolding split_or_wrap_large[OF assms True]
      by (cases "patchify img ws (1 / 8)") (simp_all split: prod.splits)
    with True show ?thesis by simp
  qed
next
  assume "int H > ws * 2 \<or> int W > ws * 2"
  then show "split_or_wrap img ws =
               (case patchify img ws (1 / 8) of
                  None \<Rightarrow> None
                | Some (splits, X, Y) \<Rightarrow> Some (splits, Some ((H, W, C), X, Y)))"
    by (rule split_or_wrap_large[OF assms])
next
  fix batch g
  assume a: "(int H > ws * 2 \<or> int W > ws * 2) \<and> split_or_wrap img ws = Some (batch, g)"
  then have c: "int H > ws * 2 \<or> int W > ws * 2" and e: "split_or_wrap img ws = Some (batch, g)"
    by blast+
  have "(case patchify img ws (1 / 8) of
                  None \<Rightarrow> None
                | Some (splits, X, Y) \<Rightarrow> Some (splits, Some ((H, W, C), X, Y))) = Some (batch, g)"
    using e unfolding split_or_wrap_large[OF assms c] .
  then obtain X Y where p: "patchify img ws (1 / 8) = Some (batch, X, Y)"
    by (cases "patchify img ws (1 / 8)") (auto split: prod.splits)
  note q = patchify_Some[OF p assms]
  have "length batch = length Y * length X" unfolding q(3) by (rule length_concat_grid)
  moreover have "2 * 2 \<le> length Y * length X"
    using start_points_length[OF q(1)] start_points_length[OF q(2)] by (intro mult_le_mono)
  ultimately show "4 \<le> length batch" by simp
qed

theorem split_decision_witness:
  "shape3 (zeros (256, 256, 3) :: rat array3) = (256, 256, 3)
   \<and> split_or_wrap (zeros (256, 256, 3)) 256 = Some ([zeros (256, 256, 3)], None)"
proof -
  have sh: "shape3 (zeros (256, 256, 3) :: rat array3) = (256, 256, 3)"
    by (rule is_array3_shape3[OF is_array3_zeros]) simp_all
  show ?thesis using split_decision[OF sh, of 256] sh by simp
qed

subsection \<open>Normalisation\<close>

lemma length_py_slice_cong: "length xs = length ys \<Longrightarrow> length (py_slice a b xs) = length (py_slice a b ys)"
  by (simp add: py_slice_def split: prod.splits)

lemma window_array:
  assumes "is_array3 (H, W, C) img"
  shows "\<exists>h w. is_array3 (h, w, C) (window img s i j)"
proof -
  define w where "w = length (py_slice j (j + s) (replicate W (undefined :: 'a list)))"
  have "length row = w \<and> (\<forall>px\<in>set row. length px = C)" if "row \<in> set (window img s i j)" for row
  proof -
    from that obtain r where r: "r \<in> set (py_slice i (i + s) img)" and row: "row = py_slice j (j + s) r"
      by (auto simp: window_def)
    from r have rin: "r \<in> set img" by (rule set_py_slice[THEN subsetD])
    with assms have lr: "length r = W" and px: "\<forall>px\<in>set r. length px = C"
      by (simp_all add: is_array3_def)
    have "length row = w" unfolding row w_def by (rule length_py_slice_cong) (simp add: lr)
    moreover have "set row \<subseteq> set r" unfolding row by (rule set_py_slice)
    ultimately show ?thesis using px by blast
  qed
  then have "is_array3 (length (window img s i j), w, C) (window img s i j)"
    by (simp add: is_array3_def)
  then show ?thesis by blast
qed

lemma values3_window: "values3 (window img s i j) \<subseteq> values3 img"
proof
  fix v assume "v \<in> values3 (window img s i j)"
  then obtain row px where row: "row \<in> set (window img s i j)" and px: "px \<in> set row" and v: "v \<in> set px"
    by (auto simp: values3_def)
  from row obtain r where r: "r \<in> set (py_slice i (i + s) img)" and rw: "row = py_slice j (j + s) r"
    by (auto simp: window_def)
  from r have "r \<in> set img" by (rule set_py_slice[THEN subsetD])
  moreover from px have "px \<in> set r" unfolding rw by (rule set_py_slice[THEN subsetD])
  ultimately show "v \<in> values3 img" using v by (auto simp: values3_def)
qed

lemma shape3_third:
  assumes "is_array3 (h, w, c) a"
  shows "snd (snd (shape3 a)) = c \<or> snd (snd (shape3 a)) = 0"
proof (cases a)
  case Nil
  then show ?thesis by (simp add: shape3_def)
next
  case (Cons row rest)
  show ?thesis
  proof (cases row)
    case Nil
    with Cons show ?thesis by (simp add: shape3_def)
  next
    case (Cons px pxs)
    with \<open>a = row # rest\<close> assms have "length px = c" by (simp add: is_array3_def)
    with Cons \<open>a = row # rest\<close> show ?thesis by (simp add: shape3_def)
  qed
qed

lemma hwc_to_chw_alt:
  "hwc_to_chw a = map (\<lambda>k. map (\<lambda>row. map (\<lambda>px. px ! k) row) a) [0..<snd (snd (shape3 a))]"
  by (simp add: hwc_to_chw_def split: prod.splits)

lemma values3_hwc_to_chw:
  assumes "is_array3 (h, w, c) a"
  shows "values3 (hwc_to_chw a) \<subseteq> values3 a"
proof
  fix v assume "v \<in> values3 (hwc_to_chw a)"
  then obtain k row px where k: "k < snd (snd (shape3 a))" and row: "row \<in> set a"
    and px: "px \<in> set row" and v: "v = px ! k"
    unfolding hwc_to_chw_alt by (auto simp: values3_def)
  from k shape3_third[OF assms] have "k < c" by auto
  moreover from assms row px have "length px = c" by (simp add: is_array3_def)
  ultimately have "v \<in> set px" using v by simp
  with row px show "v \<in> values3 a" by (auto simp: values3_def)
qed

lemma values4_normalize: "values4 (normalize b) = (\<lambda>v. v / 255) ` values4 b"
  by (auto simp: values4_def values3_def normalize_def)

lemma model_input_Inr:
  assumes "model_input batch = Inr t"
  shows "t = map (map (map (map (\<lambda>v. v / 255)))) (map hwc_to_chw batch)"
  using assms
  by (simp add: model_input_def from_numpy_def normalize_def split: if_splits)

lemma split_or_wrap_patches:
  assumes "split_or_wrap img ws = Some (batch, g)" "a \<in> set batch"
  shows "a = img \<or> (\<exists>i j. a = window img ws i j)"
proof -
  obtain H W C where sh: "shape3 img = (H, W, C)" by (cases "shape3 img")
  show ?thesis
  proof (cases "int H > ws * 2 \<or> int W > ws * 2")
    case False
    from assms split_or_wrap_small[OF sh False] show ?thesis by auto
  next
    case True
    have "(case patchify img ws (1 / 8) of
                  None \<Rightarrow> None
                | Some (splits, X, Y) \<Rightarrow> Some (splits, Some ((H, W, C), X, Y))) = Some (batch, g)"
      using assms(1) unfolding split_or_wrap_large[OF sh True] .
    then obtain X Y where p: "patchify img ws (1 / 8) = Some (batch, X, Y)"
      by (cases "patchify img ws (1 / 8)") (auto split: prod.splits)
    from patchify_Some(3)[OF p sh] assms(2) show ?thesis by auto
  qed
qed

lemma model_input_values:
  assumes "is_array3 (H, W, C) img" "split_or_wrap img ws = Some (batch, g)"
    and "t = map (map (map (map (\<lambda>v. v / 255)))) (map hwc_to_chw batch)"
  shows "\<forall>v\<in>values4 t. \<exists>u\<in>values3 img. v = u / 255"
proof
  fix v assume "v \<in> values4 t"
  then have "v \<in> (\<lambda>v. v / 255) ` values4 (map hwc_to_chw batch)"
    unfolding assms(3) using values4_normalize[of "map hwc_to_chw batch"]
    by (simp add: normalize_def)
  then obtain u a where a: "a \<in> set batch" and u: "u \<in> values3 (hwc_to_chw a)" and v: "v = u / 255"
    by (auto simp: values4_def)
  have "u \<in> values3 img"
  proof -
    from split_or_wrap_patches[OF assms(2) a] consider "a = img" | i j where "a = window img ws i j"
      by blast
    then show ?thesis
    proof cases
      case 1
      with u values3_hwc_to_chw[OF assms(1)] show ?thesis by blast
    next
      case 2
      from window_array[OF assms(1)] obtain h w where "is_array3 (h, w, C) (window img ws i j)"
        by blast
      from values3_hwc_to_chw[OF this] u 2 have "u \<in> values3 (window img ws i j)" by blast
      then show ?thesis by (rule values3_window[THEN subsetD])
    qed
  qed
  with v show "\<exists>u\<in>values3 img. v = u / 255" by blast
qed

lemma private_inference_Inr:
  assumes "load_input fs input = Inr (img, path)"
    and "private_inference fs net input ws = Some (Inr (res, name))"
  shows "\<exists>batch g t. split_or_wrap img ws = Some (batch, g) \<and> model_input batch = Inr t
           \<and> assemble (fst (snd (net t))) ws g = Inr res \<and> name = path"
proof -
  obtain batch g where sw: "split_or_wrap img ws = Some (batch, g)"
    using assms by (cases "split_or_wrap img ws") (auto simp: private_inference_def)
  obtain t where mi: "model_input batch = Inr t"
    using assms sw by (cases "model_input batch") (auto simp: private_inference_def)
  obtain e1 ei A where nt: "net t = (e1, ei, A)" by (cases "net t")
  have "assemble ei ws g = Inr res \<and> name = path"
    using assms sw mi nt by (cases "assemble ei ws g") (auto simp: private_inference_def)
  with sw mi nt show ?thesis by simp
qed

text \<open>
  Claim C10. For an input that \<^verbatim>\<open>_inference\<close> accepts, the batch given to the network
  is the permuted batch with every value divided by 255, whatever the values are: values
  between 0 and 255 end up between 0 and 1, and values between 0 and 1 end up between 0
  and 1/255.
\<close>

theorem normalisation_unconditional:
  assumes "is_array3 (H, W, C) img" "load_input fs input = Inr (img, path)"
    and "private_inference fs net input ws = Some (Inr (res, name))"
  shows "\<exists>batch g t. split_or_wrap img ws = Some (batch, g)
           \<and> t = map (map (map (map (\<lambda>v. v / 255)))) (map hwc_to_chw batch)
           \<and> assemble (fst (snd (net t))) ws g = Inr res
           \<and> (\<forall>v\<in>values4 t. \<exists>u\<in>values3 img. v = u / 255)
           \<and> ((\<forall>u\<in>values3 img. 0 \<le> u \<and> u \<le> 255) \<longrightarrow> (\<forall>v\<in>values4 t. 0 \<le> v \<and> v \<le> 1))
           \<and> ((\<forall>u\<in>values3 img. 0 \<le> u \<and> u \<le> 1) \<longrightarrow> (\<forall>v\<in>values4 t. 0 \<le> v \<and> v \<le> 1 / 255))"
proof -
  from private_inference_Inr[OF assms(2,3)] obtain batch g t where
    sw: "split_or_wrap img ws = Some (batch, g)" and mi: "model_input batch = Inr t"
    and asm: "assemble (fst (snd (net t))) ws g = Inr res" by blast
  have t: "t = map (map (map (map (\<lambda>v. v / 255)))) (map hwc_to_chw batch)"
    by (rule model_input_Inr[OF mi])
  have vals: "\<forall>v\<in>values4 t. \<exists>u\<in>values3 img. v = u / 255"
    by (rule model_input_values[OF assms(1) sw t])
  have b1: "(\<forall>u\<in>values3 img. 0 \<le> u \<and> u \<le> 255) \<longrightarrow> (\<forall>v\<in>values4 t. 0 \<le> v \<and> v \<le> 1)"
  proof (intro impI ballI)
    fix v assume h: "\<forall>u\<in>values3 img. 0 \<le> u \<and> u \<le> 255" and "v \<in> values4 t"
    with vals obtain u where "u \<in> values3 img" "v = u / 255" by blast
    with h show "0 \<le> v \<and> v \<le> 1" by auto
  qed
  have b2: "(\<forall>u\<in>values3 img. 0 \<le> u \<and> u \<le> 1) \<longrightarrow> (\<forall>v\<in>values4 t. 0 \<le> v \<and> v \<le> 1 / 255)"
  proof (intro impI ballI)
    fix v assume h: "\<forall>u\<in>values3 img. 0 \<le> u \<and> u \<le> 1" and "v \<in> values4 t"
    with vals obtain u where "u \<in> values3 img" "v = u / 255" by blast
    with h show "0 \<le> v \<and> v \<le> 1 / 255" by (auto simp: divide_right_mono)
  qed
  from sw t asm vals b1 b2 show ?thesis by blast
qed

lemma inference_example:
  "private_inference npy_only passthrough_net (ArrayInput [[[0, 51, 255]]]) 1
     = Some (Inr ([[[0]], [[1 / 5]], [[1]]], ''abcdefghij.jpg''))"
  by code_simp

theorem normalisation_unconditional_witness:
  "is_array3 (1, 1, 3) [[[0, 51, 255 :: rat]]]
   \<and> load_input npy_only (ArrayInput [[[0, 51, 255]]]) = Inr ([[[0, 51, 255]]], ''abcdefghij.jpg'')
   \<and> private_inference npy_only passthrough_net (ArrayInput [[[0, 51, 255]]]) 1
        = Some (Inr ([[[0]], [[1 / 5]], [[1]]], ''abcdefghij.jpg''))
   \<and> (\<exists>batch g t. split_or_wrap [[[0, 51, 255]]] 1 = Some (batch, g)
           \<and> t = map (map (map (map (\<lambda>v. v / 255)))) (map hwc_to_chw batch)
           \<and> assemble (fst (snd (passthrough_net t))) 1 g = Inr [[[0]], [[1 / 5]], [[1]]]
           \<and> (\<forall>v\<in>values4 t. \<exists>u\<in>values3 [[[0, 51, 255]]]. v = u / 255))"
proof -
  have a: "is_array3 (1, 1, 3) [[[0, 51, 255 :: rat]]]" by (simp add: is_array3_def)
  have b: "load_input npy_only (ArrayInput [[[0, 51, 255]]])
             = Inr ([[[0, 51, 255]]], ''abcdefghij.jpg'')"
    by (simp add: load_input_def npy_only_def)
  from normalisation_unconditional[OF a b inference_example] a b inference_example
  show ?thesis by blast
qed

subsection \<open>The shape of the result\<close>


lemma hwc_to_chw_shape:
  assumes "is_array3 (h, w, c) a" "0 < h" "0 < w"
  shows "is_array3 (c, h, w) (hwc_to_chw a)"
proof -
  have "snd (snd (shape3 a)) = c" using is_array3_shape3[OF assms] by simp
  then have "hwc_to_chw a = map (\<lambda>k. map (\<lambda>row. map (\<lambda>px. px ! k) row) a) [0..<c]"
    unfolding hwc_to_chw_alt by simp
  then show ?thesis using assms(1) by (auto simp: is_array3_def)
qed


lemma stride_eighth:
  assumes "2 \<le> ws"
  shows "1 \<le> py_int (of_int ws * (1 - 1 / 8))"
proof -
  have "(2::rat) \<le> of_int ws" using assms by (metis of_int_le_iff of_int_numeral)
  then have "(1::rat) \<le> of_int ws * (1 - 1 / 8)" by simp
  then have "1 \<le> \<lfloor>(of_int ws :: rat) * (1 - 1 / 8)\<rfloor>" by (simp add: le_floor_iff)
  moreover have "(0::rat) \<le> of_int ws * (1 - 1 / 8)" using \<open>2 \<le> of_int ws\<close> by simp
  ultimately show ?thesis by (simp add: py_int_def)
qed

lemma model_input_uniform:
  assumes "\<forall>a\<in>set batch. is_array3 (h, w, c) a" "0 < h" "0 < w"
  shows "model_input batch = Inr (map (map (map (map (\<lambda>v. v / 255)))) (map hwc_to_chw batch))"
proof -
  have "\<forall>a\<in>set batch. shape3 a = (h, w, c)"
    using assms by (auto intro: is_array3_shape3)
  moreover have "batch \<noteq> [] \<Longrightarrow> hd batch \<in> set batch" by simp
  ultimately have "\<forall>patch\<in>set batch. shape3 patch = shape3 (hd batch)"
    by (cases batch) auto
  then show ?thesis by (simp add: model_input_def from_numpy_def normalize_def)
qed


lemma start_points_short:
  assumes "int n \<le> ws" "0 \<le> py_int (of_int ws * (1 - ov))"
  shows "start_points (int n) ws ov = Some [0, int n - ws]"
  unfolding start_points_def using assms by (subst start_points_loop.simps) simp

lemma grid_view_len:
  assumes "2 \<le> ws" "\<not> (ws < 2 * int n \<and> int n < ws)"
    and "start_points (int n) ws (1 / 8) = Some pts" "p \<in> set pts"
  shows "view_len p (p + ws) n = (if ws \<le> int n then nat ws else n)"
proof (cases "ws \<le> int n")
  case True
  from start_points_grid[OF _ True _ _ assms(3)] assms(1,4)
  have "0 \<le> p" "p + ws \<le> int n" by auto
  then have "view_range p (p + ws) n = (nat p, nat p + nat ws)"
    using assms(1) by (intro view_range_in_range) auto
  with True show ?thesis by (simp add: view_len_def)
next
  case False
  then have lt: "int n < ws" and small: "2 * int n \<le> ws" using assms(2) by auto
  have "0 \<le> py_int (of_int ws * (1 - 1 / 8))" using assms(1) by (intro stride_nonneg) auto
  from start_points_short[OF _ this, of n] lt assms(3) have "pts = [0, int n - ws]" by simp
  with assms(4) consider "p = 0" | "p = int n - ws" by auto
  then show ?thesis
  proof cases
    case 1
    have "slice_index 0 n = 0" by (simp add: slice_index_def)
    moreover have "slice_index ws n = n" using lt assms(1) by (simp add: slice_index_def)
    ultimately show ?thesis using False 1 by (simp add: view_len_def view_range_def)
  next
    case 2
    have "slice_index (int n - ws) n = 0" using lt small by (simp add: slice_index_def)
    moreover have "slice_index (int n - ws + ws) n = n" by (simp add: slice_index_def)
    ultimately show ?thesis using False 2 by (simp add: view_len_def view_range_def)
  qed
qed



subsection \<open>Where the split path does not return an array\<close>

text \<open>
  A window size of 1 or less gives a stride of 0 or less, and \<^verbatim>\<open>start_points\<close> does not
  return on a side longer than the window. A side strictly between half the window size
  and the window size gives the grid \<open>[0, n - window_size]\<close> with views of the lengths
  \<open>n\<close> and \<open>window_size - n\<close>, so the patches differ in shape and are not a numeric array.
  An image of one row loses its row axis to \<^verbatim>\<open>squeeze(0)\<close>. What the split path returns
  has the 3 channels of the canvas. So an image that is split gives a result of shape
  \<open>(C_out, H, W)\<close> only under the side conditions of the amended claim C8 below.
\<close>

lemma start_points_loop_diverges_nonpos:
  assumes "st \<le> 0" "0 \<le> c" "ws < sz"
  shows "start_points_loop sz ws st c ps = None"
proof (cases "start_points_loop sz ws st c ps")
  case None then show ?thesis .
next
  case (Some r)
  from start_points_loop_result[OF this] obtain n where "sz \<le> st * (c + int n) + ws" by blast
  moreover have "st * (c + int n) \<le> 0" using assms(1,2) by (simp add: mult_nonpos_nonneg)
  ultimately show ?thesis using assms(3) by simp
qed

lemma stride_eighth_small:
  assumes "ws \<le> 1"
  shows "py_int (of_int ws * (1 - 1 / 8)) \<le> 0"
proof (cases "0 \<le> ws")
  case True
  with assms consider "ws = 0" | "ws = 1" by linarith
  then show ?thesis by cases (simp_all add: py_int_def floor_le_iff)
next
  case False
  then have "of_int ws * (1 - 1 / 8) \<le> (0::rat)" by (simp add: mult_le_0_iff)
  then show ?thesis by (simp add: py_int_def ceiling_le_iff floor_le_iff)
qed

lemma start_points_small_window:
  assumes "ws \<le> 1" "ws < sz"
  shows "start_points sz ws (1 / 8) = None"
  unfolding start_points_def
  by (rule start_points_loop_diverges_nonpos[OF stride_eighth_small[OF assms(1)] _ assms(2)]) simp

lemma inference_small_window:
  assumes ld: "load_input fs input = Inr (img, path)"
    and img: "is_array3 (H, W, C) img" "0 < H" "0 < W"
    and large: "int H > ws * 2 \<or> int W > ws * 2"
    and ws: "ws \<le> 1"
  shows "private_inference fs net input ws = None"
proof -
  have sh: "shape3 img = (H, W, C)" by (rule is_array3_shape3[OF img])
  have "start_points (int H) ws (1 / 8) = None \<or> start_points (int W) ws (1 / 8) = None"
  proof (cases "int H > ws * 2")
    case True
    with ws img(2) have "ws < int H" by linarith
    then show ?thesis by (simp add: start_points_small_window[OF ws])
  next
    case False
    with large have "int W > ws * 2" by simp
    with ws img(3) have "ws < int W" by linarith
    then show ?thesis by (simp add: start_points_small_window[OF ws])
  qed
  then have "patchify img ws (1 / 8) = None"
    by (auto simp: patchify_def sh split: option.splits)
  then have "split_or_wrap img ws = None"
    by (simp add: split_or_wrap_large[OF sh large])
  with ld show ?thesis by (simp add: private_inference_def)
qed

lemma split_grids:
  assumes img: "is_array3 (H, W, C) img" "0 < H" "0 < W"
    and large: "int H > ws * 2 \<or> int W > ws * 2"
    and ws: "2 \<le> ws"
  shows "\<exists>X Y. start_points (int H) ws (1 / 8) = Some Y \<and> start_points (int W) ws (1 / 8) = Some X
           \<and> split_or_wrap img ws
               = Some (map (\<lambda>ij. window img ws (fst ij) (snd ij)) (List.product Y X),
                       Some ((H, W, C), X, Y))"
proof -
  have sh: "shape3 img = (H, W, C)" by (rule is_array3_shape3[OF img])
  have st: "1 \<le> py_int (of_int ws * (1 - 1 / 8))" by (rule stride_eighth[OF ws])
  obtain Y where Y: "start_points (int H) ws (1 / 8) = Some Y"
    unfolding start_points_def using start_points_loop_terminates[OF st] by blast
  obtain X where X: "start_points (int W) ws (1 / 8) = Some X"
    unfolding start_points_def using start_points_loop_terminates[OF st] by blast
  have "split_or_wrap img ws
          = Some (map (\<lambda>ij. window img ws (fst ij) (snd ij)) (List.product Y X),
                  Some ((H, W, C), X, Y))"
    unfolding split_or_wrap_large[OF sh large] patchify_in_range[OF img Y X] by simp
  with X Y show ?thesis by blast
qed

lemma ragged_views:
  assumes "ws < 2 * int n" "int n < ws"
  shows "view_len 0 (0 + ws) n = n" "view_len (int n - ws) (int n - ws + ws) n = nat (ws - int n)"
    "n \<noteq> nat (ws - int n)"
proof -
  have a: "slice_index 0 n = 0" by (simp add: slice_index_def)
  have b: "slice_index ws n = n" using assms by (simp add: slice_index_def)
  have c: "slice_index (int n - ws) n = nat (2 * int n - ws)" using assms by (simp add: slice_index_def)
  have d: "slice_index (int n) n = n" by (simp add: slice_index_def)
  show "view_len 0 (0 + ws) n = n" using a b by (simp add: view_len_def view_range_def)
  show "view_len (int n - ws) (int n - ws + ws) n = nat (ws - int n)"
    using c d assms by (simp add: view_len_def view_range_def)
  show "n \<noteq> nat (ws - int n)" using assms by linarith
qed

lemma from_numpy_ragged:
  assumes "p \<in> set batch" "q \<in> set batch" "shape3 p \<noteq> shape3 q"
  shows "model_input batch = Inl TypeError"
proof -
  have "\<not> (\<forall>patch\<in>set batch. shape3 patch = shape3 (hd batch))" using assms by metis
  then show ?thesis by (simp add: model_input_def from_numpy_def)
qed

lemma inference_ragged:
  assumes ld: "load_input fs input = Inr (img, path)"
    and img: "is_array3 (H, W, C) img" "0 < H" "0 < W"
    and large: "int H > ws * 2 \<or> int W > ws * 2"
    and ws: "2 \<le> ws"
    and ragged: "(ws < 2 * int H \<and> int H < ws) \<or> (ws < 2 * int W \<and> int W < ws)"
  shows "private_inference fs net input ws = Some (Inl TypeError)"
proof -
  from split_grids[OF img large ws] obtain X Y where
    Y: "start_points (int H) ws (1 / 8) = Some Y" and X: "start_points (int W) ws (1 / 8) = Some X"
    and sw: "split_or_wrap img ws
               = Some (map (\<lambda>ij. window img ws (fst ij) (snd ij)) (List.product Y X),
                       Some ((H, W, C), X, Y))" by blast
  define splits where "splits = map (\<lambda>ij. window img ws (fst ij) (snd ij)) (List.product Y X)"
  have st: "0 \<le> py_int (of_int ws * (1 - 1 / 8))" using ws by (intro stride_nonneg) auto
  have mem: "window img ws i j \<in> set splits" if "i \<in> set Y" "j \<in> set X" for i j
    using that unfolding splits_def by force
  have lenw: "length (window img ws i j) = view_len i (i + ws) H" for i j
    using window_view_shape[OF img(1), of i ws j] by (simp add: is_array3_def)
  have X0: "X \<noteq> []" and Y0: "Y \<noteq> []"
    using start_points_length[OF X] start_points_length[OF Y] by auto
  have "\<exists>p q. p \<in> set splits \<and> q \<in> set splits \<and> shape3 p \<noteq> shape3 q"
  proof (cases "ws < 2 * int H \<and> int H < ws")
    case True
    then have "Y = [0, int H - ws]" using start_points_short[OF _ st, of H] Y by simp
    then have y: "0 \<in> set Y" "int H - ws \<in> set Y" by simp_all
    have x: "hd X \<in> set X" using X0 by simp
    have "fst (shape3 (window img ws 0 (hd X))) \<noteq> fst (shape3 (window img ws (int H - ws) (hd X)))"
      using ragged_views[of ws H] True lenw by (simp add: shape3_def)
    then have "shape3 (window img ws 0 (hd X)) \<noteq> shape3 (window img ws (int H - ws) (hd X))"
      by metis
    with mem[OF y(1) x] mem[OF y(2) x] show ?thesis by blast
  next
    case False
    with ragged have rw: "ws < 2 * int W" "int W < ws" by simp_all
    then have "X = [0, int W - ws]" using start_points_short[OF _ st, of W] X by simp
    then have x: "0 \<in> set X" "int W - ws \<in> set X" by simp_all
    have y: "hd Y \<in> set Y" using Y0 by simp
    define eh where "eh = view_len (hd Y) (hd Y + ws) H"
    have "eh = (if ws \<le> int H then nat ws else H)"
      unfolding eh_def by (rule grid_view_len[OF ws False Y y])
    then have eh: "0 < eh" using ws img(2) by simp
    have a: "is_array3 (eh, W, C) (window img ws (hd Y) 0)"
      using window_view_shape[OF img(1), of "hd Y" ws 0] ragged_views(1)[OF rw]
      by (simp add: eh_def)
    have b: "is_array3 (eh, nat (ws - int W), C) (window img ws (hd Y) (int W - ws))"
      using window_view_shape[OF img(1), of "hd Y" ws "int W - ws"] ragged_views(2)[OF rw]
      by (simp add: eh_def)
    have "0 < nat (ws - int W)" using rw by simp
    from is_array3_shape3[OF a eh img(3)] is_array3_shape3[OF b eh this] ragged_views(3)[OF rw]
    have "shape3 (window img ws (hd Y) 0) \<noteq> shape3 (window img ws (hd Y) (int W - ws))" by simp
    with mem[OF y x(1)] mem[OF y x(2)] show ?thesis by blast
  qed
  then obtain p q where "p \<in> set splits" "q \<in> set splits" "shape3 p \<noteq> shape3 q" by blast
  then have "model_input splits = Inl TypeError" by (rule from_numpy_ragged)
  with ld sw show ?thesis by (simp add: private_inference_def splits_def)
qed

lemma inference_split_result:
  assumes ld: "load_input fs input = Inr (img, path)"
    and img: "is_array3 (H, W, 3) img" "0 < H" "0 < W"
    and net: "\<forall>b h w. (\<forall>a\<in>set b. is_array3 (3, h, w) a) \<longrightarrow>
                length (fst (snd (net b))) = length b
                \<and> (\<forall>a\<in>set (fst (snd (net b))). is_array3 (C_out, h, w) a)"
    and large: "int H > ws * 2 \<or> int W > ws * 2"
    and ws: "2 \<le> ws"
    and okH: "\<not> (ws < 2 * int H \<and> int H < ws)"
    and okW: "\<not> (ws < 2 * int W \<and> int W < ws)"
    and ret: "private_inference fs net input ws = Some (Inr (res, name))"
  shows "2 \<le> H \<and> is_array3 (3, H, W) res"
proof -
  from split_grids[OF img large ws] obtain X Y where
    Y: "start_points (int H) ws (1 / 8) = Some Y" and X: "start_points (int W) ws (1 / 8) = Some X"
    and sw: "split_or_wrap img ws
               = Some (map (\<lambda>ij. window img ws (fst ij) (snd ij)) (List.product Y X),
                       Some ((H, W, 3), X, Y))" by blast
  define pairs where "pairs = List.product Y X"
  define splits where "splits = map (\<lambda>ij. window img ws (fst ij) (snd ij)) pairs"
  define eh where "eh = (if ws \<le> int H then nat ws else H)"
  define ew where "ew = (if ws \<le> int W then nat ws else W)"
  have epos: "0 < eh" "0 < ew" using ws img(2,3) by (simp_all add: eh_def ew_def)
  have patches: "\<forall>a\<in>set splits. is_array3 (eh, ew, 3) a"
  proof
    fix a assume "a \<in> set splits"
    then obtain ij where ij: "ij \<in> set pairs" and a: "a = window img ws (fst ij) (snd ij)"
      unfolding splits_def by auto
    from ij have "fst ij \<in> set Y" "snd ij \<in> set X" by (auto simp: pairs_def)
    then have "view_len (fst ij) (fst ij + ws) H = eh" "view_len (snd ij) (snd ij + ws) W = ew"
      using grid_view_len[OF ws okH Y] grid_view_len[OF ws okW X]
      by (simp_all add: eh_def ew_def)
    with window_view_shape[OF img(1), of "fst ij" ws "snd ij"]
    show "is_array3 (eh, ew, 3) a" by (simp add: a)
  qed
  define t where "t = map (map (map (map (\<lambda>v. v / 255)))) (map hwc_to_chw splits)"
  have mi: "model_input splits = Inr t"
    unfolding t_def by (rule model_input_uniform[OF patches epos])
  have "\<forall>a\<in>set t. is_array3 (3, eh, ew) a"
    unfolding t_def using patches hwc_to_chw_shape[OF _ epos] by (auto intro: map3_shape)
  with net have l: "length (fst (snd (net t))) = length t" by blast
  define ei where "ei = fst (snd (net t))"
  have "2 * 2 \<le> length Y * length X"
    using start_points_length[OF X] start_points_length[OF Y] by (intro mult_le_mono)
  moreover have "length ei = length Y * length X"
    using l by (simp add: ei_def t_def splits_def pairs_def)
  ultimately have ne1: "length ei \<noteq> 1" by linarith
  from private_inference_Inr[OF ld ret] sw mi
  have "assemble ei ws (Some ((H, W, 3), X, Y)) = Inr res"
    by (simp add: splits_def pairs_def ei_def)
  then obtain r where rec: "reconstruct (Torch (map chw_to_hwc ei)) ws (1 / 8) (H, W, 3) X Y = Inr r"
    and H1: "H \<noteq> 1" and res: "res = hwc_to_chw r"
    using ne1 by (auto simp: assemble_def split: sum.splits if_splits)
  have "is_array3 (H, W, 3) r"
    using rec unfolding reconstruct_def by (rule reconstruct_loop_keeps_shape) (rule is_array3_zeros)
  then have "is_array3 (3, H, W) res" unfolding res by (rule hwc_to_chw_shape[OF _ img(2,3)])
  with H1 img(2) show ?thesis by simp
qed

lemma inference_split_conditions_needed:
  assumes ld: "load_input fs input = Inr (img, path)"
    and img: "is_array3 (H, W, 3) img" "0 < H" "0 < W"
    and net: "\<forall>b h w. (\<forall>a\<in>set b. is_array3 (3, h, w) a) \<longrightarrow>
                length (fst (snd (net b))) = length b
                \<and> (\<forall>a\<in>set (fst (snd (net b))). is_array3 (C_out, h, w) a)"
    and large: "int H > ws * 2 \<or> int W > ws * 2"
    and ret: "private_inference fs net input ws = Some (Inr (res, name))"
    and shp: "is_array3 (C_out, H, W) res"
  shows "2 \<le> ws \<and> 2 \<le> H \<and> \<not> (ws < 2 * int H \<and> int H < ws)
         \<and> \<not> (ws < 2 * int W \<and> int W < ws) \<and> C_out = 3"
proof -
  have ws: "2 \<le> ws"
  proof (rule ccontr)
    assume "\<not> 2 \<le> ws"
    then have "ws \<le> 1" by simp
    from inference_small_window[OF ld img large this, of net] ret show False by simp
  qed
  have ok: "\<not> ((ws < 2 * int H \<and> int H < ws) \<or> (ws < 2 * int W \<and> int W < ws))"
  proof
    assume "(ws < 2 * int H \<and> int H < ws) \<or> (ws < 2 * int W \<and> int W < ws)"
    from inference_ragged[OF ld img large ws this, of net] ret show False by simp
  qed
  then have okH: "\<not> (ws < 2 * int H \<and> int H < ws)" and okW: "\<not> (ws < 2 * int W \<and> int W < ws)"
    by blast+
  from inference_split_result[OF ld img net large ws okH okW ret]
  have H2: "2 \<le> H" and r3: "is_array3 (3, H, W) res" by simp_all
  from r3 shp have "C_out = 3" by (simp add: is_array3_def)
  with ws H2 okH okW show ?thesis by simp
qed



end
